theory Spec2Isabelle
  imports Main "HOL-Library.AList" "HOL-Library.Word"
begin

section \<open>Data model\<close>

text \<open>
  The message object of the store:
  \<^verbatim>\<open>{ id, convId, from, to, cipher, createdAt, editedAt?, deleted?, status, seenAt? }\<close>.
  A field that may be absent from the object is an option. Strings that only ever hold
  identifiers are HOL strings; the numbers of the JSON arrays and the timestamps are
  integers.
\<close>

datatype status = Sent | Delivered | Seen

record cipher =
  iv :: "int list"
  data :: "int list"

record msg =
  msg_id :: "string option"
  convId :: string
  msg_from :: string
  msg_to :: string
  cipher :: "cipher option"
  createdAt :: "int option"
  editedAt :: "int option"
  deleted :: "bool option"
  status :: status
  seenAt :: "int option"

text \<open>An element of the parsed \<^verbatim>\<open>messages\<close> array: \<open>None\<close> is \<^verbatim>\<open>null\<close>.\<close>

type_synonym entry = "msg option"

record conv =
  conv_id :: string
  conv_peerId :: string

text \<open>
  The document under \<^verbatim>\<open>STORAGE_KEY\<close>. \<open>messages = None\<close> stands for a
  \<^verbatim>\<open>messages\<close> field that is not an array. The storage slot itself is an option:
  \<open>None\<close> when the key is absent.
\<close>

record snapshot =
  conversations :: "conv list"
  messages :: "entry list option"

type_synonym storage = "snapshot option"

section \<open>Rendering numbers as JavaScript does\<close>

definition digit_char :: "nat \<Rightarrow> char" where
  "digit_char d = char_of (48 + d)"

fun show_nat :: "nat \<Rightarrow> string" where
  "show_nat n = (if n < 10 then [digit_char n] else show_nat (n div 10) @ [digit_char (n mod 10)])"

definition show_int :: "int \<Rightarrow> string" where
  "show_int i = (if i < 0 then CHR ''-'' # show_nat (nat (- i)) else show_nat (nat i))"

text \<open>\<^verbatim>\<open>Array.prototype.join\<close> on an array of strings.\<close>

fun join :: "string \<Rightarrow> string list \<Rightarrow> string" where
  "join sep [] = []"
| "join sep [x] = x"
| "join sep (x # y # ys) = x @ sep @ join sep (y # ys)"

section \<open>Compaction\<close>

text \<open>
  \<^verbatim>\<open>m.createdAt || 0\<close>: an absent timestamp counts as 0.
\<close>

definition created :: "msg \<Rightarrow> int" where
  "created m = (case createdAt m of None \<Rightarrow> 0 | Some t \<Rightarrow> t)"

text \<open>
  \<^verbatim>\<open>Math.round(x / 200)\<close> rounds to the nearest integer, a tie going up. For an
  integer \<open>x\<close> that is \<open>\<lfloor>(x + 100) / 200\<rfloor>\<close>.
\<close>

definition bucket :: "msg \<Rightarrow> int" where
  "bucket m = (created m + 100) div 200"

definition ivStr :: "msg \<Rightarrow> string" where
  "ivStr m = (case cipher m of None \<Rightarrow> [] | Some c \<Rightarrow> join '','' (map show_int (iv c)))"

definition dataStr :: "msg \<Rightarrow> string" where
  "dataStr m = (case cipher m of None \<Rightarrow> [] | Some c \<Rightarrow> join '','' (map show_int (take 24 (data c))))"

definition fingerprint :: "msg \<Rightarrow> string" where
  "fingerprint m =
     join ''|'' [convId m, msg_from m, msg_to m, show_int (bucket m), ivStr m, dataStr m]"

text \<open>
  A JavaScript \<^verbatim>\<open>Map\<close> keeps its keys in the order of their first insertion and
  \<^verbatim>\<open>set\<close> on a present key replaces the value in place: an association list with
  \<^const>\<open>AList.update\<close>.

  \<^verbatim>\<open>if (m && m.id) byId.set(m.id, m)\<close>: \<^verbatim>\<open>null\<close> entries, entries without an id and
  entries whose id is the empty string are skipped.
\<close>

definition byId_step :: "entry \<Rightarrow> (string \<times> msg) list \<Rightarrow> (string \<times> msg) list" where
  "byId_step e byId =
     (case e of
        None \<Rightarrow> byId
      | Some m \<Rightarrow>
          (case msg_id m of
             None \<Rightarrow> byId
           | Some i \<Rightarrow> if i = [] then byId else AList.update i m byId))"

definition byFp_step :: "msg \<Rightarrow> (string \<times> msg) list \<Rightarrow> (string \<times> msg) list" where
  "byFp_step m byFp =
     (let fp = fingerprint m in
      case map_of byFp fp of
        None \<Rightarrow> AList.update fp m byFp
      | Some prev \<Rightarrow> if created m \<ge> created prev then AList.update fp m byFp else byFp)"

definition idMerge :: "entry list \<Rightarrow> msg list" where
  "idMerge xs = map snd (fold byId_step xs [])"

definition fpMerge :: "msg list \<Rightarrow> msg list" where
  "fpMerge arr = map snd (fold byFp_step arr [])"

text \<open>
  The inline compaction of \<^verbatim>\<open>saveData\<close> (and, with the same text, of \<^verbatim>\<open>loadData\<close>):
  identity merge, fingerprint merge, then the stable sort by \<^verbatim>\<open>createdAt || 0\<close>.
\<close>

definition compact :: "entry list \<Rightarrow> msg list" where
  "compact xs = sort_key created (fpMerge (idMerge xs))"

definition CONTACTS :: "string list" where
  "CONTACTS = [''u-1'', ''u-2'', ''u-3'', ''u-4'']"

definition getConversationId :: "string \<Rightarrow> string" where
  "getConversationId p = ''conv-'' @ p"

text \<open>
  \<^verbatim>\<open>saveData(data)\<close>: \<^verbatim>\<open>clean\<close> is the object it builds, and the storage slot holds it
  afterwards.
\<close>

definition clean :: "snapshot \<Rightarrow> snapshot" where
  "clean d =
     (let ms = (case messages d of Some xs \<Rightarrow> xs | None \<Rightarrow> [])
      in d\<lparr>messages := Some (map Some (compact ms))\<rparr>)"

definition saveData :: "snapshot \<Rightarrow> storage" where
  "saveData d = Some (clean d)"

text \<open>\<^verbatim>\<open>loadData()\<close>: the snapshot returned and the storage it leaves behind.\<close>

definition loadData :: "storage \<Rightarrow> snapshot \<times> storage" where
  "loadData raw =
     (case raw of
        Some d \<Rightarrow>
          (let d' = d\<lparr>messages :=
                       (case messages d of
                          Some xs \<Rightarrow> Some (map Some (compact xs))
                        | None \<Rightarrow> Some [])\<rparr>
           in (d', Some d'))
      | None \<Rightarrow>
          (let d = \<lparr>conversations = map (\<lambda>c. \<lparr>conv_id = getConversationId c, conv_peerId = c\<rparr>) CONTACTS,
                    messages = Some []\<rparr>
           in (d, Some d)))"

text \<open>The message array of a loaded snapshot (\<^verbatim>\<open>data.messages\<close>).\<close>

definition msgs_of :: "snapshot \<Rightarrow> msg list" where
  "msgs_of d = (case messages d of None \<Rightarrow> [] | Some xs \<Rightarrow> List.map_filter id xs)"

definition truthy_id :: "msg \<Rightarrow> bool" where
  "truthy_id m = (case msg_id m of None \<Rightarrow> False | Some i \<Rightarrow> i \<noteq> [])"

text \<open>An entry the identity merge takes up: not \<^verbatim>\<open>null\<close>, with a truthy id.\<close>

definition well_formed_entry :: "entry \<Rightarrow> bool" where
  "well_formed_entry e = (case e of None \<Rightarrow> False | Some m \<Rightarrow> truthy_id m)"


subsection \<open>Notions used to state the properties\<close>

text \<open>The nonce bytes and the first 24 ciphertext bytes that enter the fingerprint.\<close>

definition nonce :: "msg \<Rightarrow> int list" where
  "nonce m = (case cipher m of None \<Rightarrow> [] | Some c \<Rightarrow> iv c)"

definition data_prefix :: "msg \<Rightarrow> int list" where
  "data_prefix m = (case cipher m of None \<Rightarrow> [] | Some c \<Rightarrow> take 24 (data c))"

definition same_fields :: "msg \<Rightarrow> msg \<Rightarrow> bool" where
  "same_fields a b \<longleftrightarrow>
     convId a = convId b \<and> msg_from a = msg_from b \<and> msg_to a = msg_to b
     \<and> nonce a = nonce b \<and> data_prefix a = data_prefix b"

text \<open>The bucket as the specification words it, \<open>\<lfloor>createdAt / 200\<rfloor>\<close>; the code does not use it.\<close>

definition floor_bucket :: "msg \<Rightarrow> int" where
  "floor_bucket m = created m div 200"

text \<open>Invariants of the two maps while the loops run.\<close>

definition id_inv :: "(string \<times> msg) list \<Rightarrow> bool" where
  "id_inv al = (\<forall>(k, m) \<in> set al. msg_id m = Some k \<and> k \<noteq> [])"

definition fp_inv :: "(string \<times> msg) list \<Rightarrow> bool" where
  "fp_inv al = (\<forall>(k, m) \<in> set al. fingerprint m = k)"

definition seen_inv :: "(string \<times> msg) list \<Rightarrow> msg set \<Rightarrow> bool" where
  "seen_inv al seen =
     (\<forall>m \<in> seen. \<exists>v. map_of al (fingerprint m) = Some v \<and> created m \<le> created v)"

text \<open>The shape of a compacted list.\<close>

definition compacted :: "msg list \<Rightarrow> bool" where
  "compacted xs \<longleftrightarrow>
     list_all truthy_id xs \<and> distinct (map msg_id xs) \<and> distinct (map fingerprint xs)
     \<and> sorted (map created xs)"

text \<open>A sample message, for concrete runs.\<close>

definition ex_msg :: "string \<Rightarrow> int \<Rightarrow> msg" where
  "ex_msg i t = \<lparr>msg_id = Some i, convId = ''conv-u-1'', msg_from = ''me'', msg_to = ''u-1'',
     cipher = Some \<lparr>iv = [1, 2, 3], data = [9, 8, 7]\<rparr>, createdAt = Some t, editedAt = None,
     deleted = None, status = Sent, seenAt = None\<rparr>"

section \<open>Text encoding\<close>

text \<open>
  A JavaScript string is a sequence of 16-bit code units, a \<^verbatim>\<open>Uint8Array\<close> a sequence of
  bytes. Identifiers of the program (conversation ids, the demo secret) are HOL strings,
  read as JavaScript strings by \<open>js\<close>.
\<close>

type_synonym jsstring = "16 word list"
type_synonym bytes = "8 word list"

definition js :: "string \<Rightarrow> jsstring" where
  "js s = map (\<lambda>c. of_nat (of_char c)) s"

definition is_high :: "nat \<Rightarrow> bool" where
  "is_high u \<longleftrightarrow> 0xD800 \<le> u \<and> u \<le> 0xDBFF"

definition is_low :: "nat \<Rightarrow> bool" where
  "is_low u \<longleftrightarrow> 0xDC00 \<le> u \<and> u \<le> 0xDFFF"

text \<open>
  \<^verbatim>\<open>new TextEncoder().encode(s)\<close> first reads the string as scalar values: a surrogate
  pair is one supplementary code point, a surrogate without its partner becomes U+FFFD.
  Each scalar value is then written in UTF-8.
\<close>

fun scalars :: "nat list \<Rightarrow> nat list" where
  "scalars [] = []"
| "scalars [u] = (if is_high u \<or> is_low u then [0xFFFD] else [u])"
| "scalars (u # v # us) =
     (if is_high u then
        (if is_low v then (0x10000 + (u - 0xD800) * 0x400 + (v - 0xDC00)) # scalars us
         else 0xFFFD # scalars (v # us))
      else if is_low u then 0xFFFD # scalars (v # us)
      else u # scalars (v # us))"

definition utf8_cp :: "nat \<Rightarrow> nat list" where
  "utf8_cp c =
     (if c < 0x80 then [c]
      else if c < 0x800 then [0xC0 + c div 0x40, 0x80 + c mod 0x40]
      else if c < 0x10000 then [0xE0 + c div 0x1000, 0x80 + (c div 0x40) mod 0x40, 0x80 + c mod 0x40]
      else [0xF0 + c div 0x40000, 0x80 + (c div 0x1000) mod 0x40, 0x80 + (c div 0x40) mod 0x40,
            0x80 + c mod 0x40])"

definition utf8_encode :: "jsstring \<Rightarrow> bytes" where
  "utf8_encode s = map of_nat (concat (map utf8_cp (scalars (map unat s))))"

text \<open>
  \<^verbatim>\<open>new TextDecoder().decode(bytes)\<close>: the UTF-8 decoder of the Encoding Standard in its
  default, non-fatal mode. The state is the code point under construction, the number of
  continuation bytes needed and seen, and the bounds for the next byte. A byte out of
  bounds yields U+FFFD and is read again as a lead byte; input that stops inside a
  sequence yields U+FFFD. With the default \<^verbatim>\<open>ignoreBOM = false\<close> a leading U+FEFF is
  removed from the output. The code points are then written as UTF-16.
\<close>

fun utf8_dec :: "nat \<Rightarrow> nat \<Rightarrow> nat \<Rightarrow> nat \<Rightarrow> nat \<Rightarrow> nat list \<Rightarrow> nat list"
  and utf8_lead :: "nat \<Rightarrow> nat list \<Rightarrow> nat list" where
  "utf8_dec cp needed seen lo hi [] = (if needed \<noteq> 0 then [0xFFFD] else [])"
| "utf8_dec cp needed seen lo hi (b # bs) =
     (if needed = 0 then utf8_lead b bs
      else if b < lo \<or> hi < b then 0xFFFD # utf8_lead b bs
      else if seen + 1 \<noteq> needed then utf8_dec (cp * 64 + b mod 64) needed (seen + 1) 0x80 0xBF bs
      else (cp * 64 + b mod 64) # utf8_dec 0 0 0 0x80 0xBF bs)"
| "utf8_lead b bs =
     (if b \<le> 0x7F then b # utf8_dec 0 0 0 0x80 0xBF bs
      else if 0xC2 \<le> b \<and> b \<le> 0xDF then utf8_dec (b mod 32) 1 0 0x80 0xBF bs
      else if 0xE0 \<le> b \<and> b \<le> 0xEF then
        utf8_dec (b mod 16) 2 0 (if b = 0xE0 then 0xA0 else 0x80) (if b = 0xED then 0x9F else 0xBF) bs
      else if 0xF0 \<le> b \<and> b \<le> 0xF4 then
        utf8_dec (b mod 8) 3 0 (if b = 0xF0 then 0x90 else 0x80) (if b = 0xF4 then 0x8F else 0xBF) bs
      else 0xFFFD # utf8_dec 0 0 0 0x80 0xBF bs)"

definition strip_bom :: "nat list \<Rightarrow> nat list" where
  "strip_bom cs = (case cs of [] \<Rightarrow> [] | c # rest \<Rightarrow> if c = 0xFEFF then rest else cs)"

definition utf16_cp :: "nat \<Rightarrow> nat list" where
  "utf16_cp c =
     (if c < 0x10000 then [c]
      else [0xD800 + (c - 0x10000) div 0x400, 0xDC00 + (c - 0x10000) mod 0x400])"

definition utf8_decode :: "bytes \<Rightarrow> jsstring" where
  "utf8_decode bs =
     map of_nat (concat (map utf16_cp (strip_bom (utf8_dec 0 0 0 0x80 0xBF (map unat bs)))))"

text \<open>Scalar values, and strings in which every surrogate is half of a pair.\<close>

definition valid_scalar :: "nat \<Rightarrow> bool" where
  "valid_scalar c \<longleftrightarrow> c < 0x110000 \<and> \<not> (0xD800 \<le> c \<and> c \<le> 0xDFFF)"

fun well_formed16 :: "nat list \<Rightarrow> bool" where
  "well_formed16 [] = True"
| "well_formed16 [u] = (\<not> is_high u \<and> \<not> is_low u)"
| "well_formed16 (u # v # us) =
     (if is_high u then is_low v \<and> well_formed16 us
      else \<not> is_low u \<and> well_formed16 (v # us))"

definition well_formed_text :: "jsstring \<Rightarrow> bool" where
  "well_formed_text t \<longleftrightarrow> well_formed16 (map unat t)"

definition starts_with_bom :: "jsstring \<Rightarrow> bool" where
  "starts_with_bom t = (case t of [] \<Rightarrow> False | u # _ \<Rightarrow> u = 0xFEFF)"

section \<open>Encryption\<close>

text \<open>
  The Web Crypto primitives are parameters: PBKDF2 with its fixed iteration count and hash
  (password and salt to a 256-bit key), and AES-GCM encryption and decryption (key, nonce,
  input). Decryption gives \<open>None\<close> where the platform rejects the promise with an
  \<^verbatim>\<open>OperationError\<close>.
\<close>

record crypto =
  pbkdf2 :: "bytes \<Rightarrow> bytes \<Rightarrow> bytes"
  gcm_encrypt :: "bytes \<Rightarrow> bytes \<Rightarrow> bytes \<Rightarrow> bytes"
  gcm_decrypt :: "bytes \<Rightarrow> bytes \<Rightarrow> bytes \<Rightarrow> bytes option"

definition DEMO_SECRET :: string where
  "DEMO_SECRET = ''chatly-demo-secret-v1''"

definition deriveKey :: "crypto \<Rightarrow> string \<Rightarrow> bytes" where
  "deriveKey C conversationId =
     pbkdf2 C (utf8_encode (js (DEMO_SECRET @ ''|'' @ conversationId)))
              (utf8_encode (js conversationId))"

text \<open>
  \<^verbatim>\<open>encryptMessage\<close>; \<open>rnd\<close> is the nonce drawn by \<^verbatim>\<open>crypto.getRandomValues\<close>.
  \<^verbatim>\<open>Array.from\<close> turns the bytes into numbers.
\<close>

definition encryptMessage :: "crypto \<Rightarrow> bytes \<Rightarrow> string \<Rightarrow> jsstring \<Rightarrow> cipher" where
  "encryptMessage C rnd conversationId plaintext =
     (let key = deriveKey C conversationId;
          ct = gcm_encrypt C key rnd (utf8_encode plaintext)
      in \<lparr>iv = map uint rnd, data = map uint ct\<rparr>)"

datatype js_error = TypeError | OperationError

text \<open>
  The \<^verbatim>\<open>try\<close> block of \<^verbatim>\<open>decryptMessage\<close>. Reading \<^verbatim>\<open>cipher.iv\<close> of a missing payload
  throws; \<^verbatim>\<open>new Uint8Array(numbers)\<close> reduces each number modulo 256.
\<close>

definition decrypt_try :: "crypto \<Rightarrow> string \<Rightarrow> cipher option \<Rightarrow> js_error + jsstring" where
  "decrypt_try C conversationId payload =
     (let key = deriveKey C conversationId in
      case payload of
        None \<Rightarrow> Inl TypeError
      | Some c \<Rightarrow>
          (let iv' = map of_int (iv c); data' = map of_int (data c) in
           case gcm_decrypt C key iv' data' of
             None \<Rightarrow> Inl OperationError
           | Some pt \<Rightarrow> Inr (utf8_decode pt)))"

definition UNABLE :: jsstring where
  "UNABLE = js ''[Unable to decrypt]''"

text \<open>
  \<^verbatim>\<open>decryptMessage\<close> with its \<^verbatim>\<open>catch\<close>. The result type keeps a place for an error that
  would reach the caller.
\<close>

definition decryptMessage :: "crypto \<Rightarrow> string \<Rightarrow> cipher option \<Rightarrow> js_error + jsstring" where
  "decryptMessage C conversationId payload =
     (case decrypt_try C conversationId payload of
        Inl e \<Rightarrow> Inr UNABLE
      | Inr text \<Rightarrow> Inr text)"

text \<open>What is assumed of AES-GCM: with a 12-byte nonce, decryption undoes encryption.\<close>

definition aead_correct :: "crypto \<Rightarrow> bool" where
  "aead_correct C \<longleftrightarrow>
     (\<forall>key n pt. length n = 12 \<longrightarrow> gcm_decrypt C key n (gcm_encrypt C key n pt) = Some pt)"

text \<open>
  A stand-in with the same interface, for concrete runs: the key is cut from salt and
  password, the ciphertext is the plaintext followed by a 16-byte tag of key and nonce.
\<close>

definition tag_of :: "bytes \<Rightarrow> bytes \<Rightarrow> bytes" where
  "tag_of key nonce_bytes = take 16 (key @ nonce_bytes @ replicate 16 0)"

definition toy_crypto :: crypto where
  "toy_crypto = \<lparr>
     pbkdf2 = (\<lambda>pw salt. take 32 (salt @ pw @ replicate 32 0)),
     gcm_encrypt = (\<lambda>key n pt. pt @ tag_of key n),
     gcm_decrypt = (\<lambda>key n ct.
        if length n = 12 \<and> 16 \<le> length ct \<and> drop (length ct - 16) ct = tag_of key n
        then Some (take (length ct - 16) ct) else None)\<rparr>"

definition rnd12 :: bytes where
  "rnd12 = [1, 2, 3, 4, 5, 6, 7, 8, 9, 10, 11, 12]"

section \<open>Application state\<close>

text \<open>
  The \<^verbatim>\<open>state\<close> object (the fields that hold no DOM handle), the table of pending
  browser timers and the \<^verbatim>\<open>botTimers\<close> map. \<^verbatim>\<open>setTimeout\<close> hands out fresh positive
  ids. What an operation reads from outside (clock, random id and nonce, scroll position,
  the text chosen by \<^verbatim>\<open>botReply\<close>) is passed in as \<open>env\<close>.
\<close>

record last_action =
  la_convId :: string
  la_text :: jsstring
  la_ts :: int

record state =
  peerId :: "string option"
  pageIndex :: int
  typingTimer :: "nat option"
  sending :: bool
  lastSend :: "last_action option"
  lastBot :: "last_action option"

datatype timer_job =
    BotJob jsstring string string
  | StatusJob string status
  | TypingJob

record world =
  ui :: state
  store :: storage
  botTimers :: "(string \<times> nat) list"
  timers :: "(nat \<times> timer_job) list"
  nextTimer :: nat

record env =
  e_now :: int
  e_uuid :: string
  e_rnd :: bytes
  e_nearBottom :: bool
  e_reply :: jsstring

definition init_world :: world where
  "init_world =
     \<lparr>ui = \<lparr>peerId = None, pageIndex = 0, typingTimer = None, sending = False, lastSend = None,
             lastBot = None\<rparr>,
      store = None, botTimers = [], timers = [], nextTimer = 1\<rparr>"

definition PAGE_SIZE :: int where
  "PAGE_SIZE = 20"

text \<open>\<^verbatim>\<open>!state.peerId\<close>, and \<^verbatim>\<open>state.peerId\<close> as it is spliced into a template string.\<close>

definition no_peer :: "state \<Rightarrow> bool" where
  "no_peer st = (case peerId st of None \<Rightarrow> True | Some p \<Rightarrow> p = [])"

definition peer_str :: "state \<Rightarrow> string" where
  "peer_str st = (case peerId st of None \<Rightarrow> ''null'' | Some p \<Rightarrow> p)"

definition switchConversation :: "string \<Rightarrow> world \<Rightarrow> world" where
  "switchConversation p w = w\<lparr>ui := (ui w)\<lparr>peerId := Some p, pageIndex := 0\<rparr>\<rparr>"

section \<open>Pagination\<close>

definition is_deleted :: "msg \<Rightarrow> bool" where
  "is_deleted m = (deleted m = Some True)"

text \<open>\<^verbatim>\<open>Array.prototype.slice(start, end)\<close>, negative indices counting from the end.\<close>

definition slice :: "int \<Rightarrow> int \<Rightarrow> 'a list \<Rightarrow> 'a list" where
  "slice start fin xs =
     (let len = int (length xs);
          k = (if start < 0 then max (len + start) 0 else min start len);
          final = (if fin < 0 then max (len + fin) 0 else min fin len)
      in take (nat (final - k)) (drop (nat k) xs))"

definition in_conv :: "string \<Rightarrow> msg \<Rightarrow> bool" where
  "in_conv c m \<longleftrightarrow> convId m = c \<and> \<not> is_deleted m"

text \<open>
  \<^verbatim>\<open>getVisibleMessages\<close>. The \<^verbatim>\<open>loadData\<close> inside also writes the compacted snapshot
  back; the value returned does not depend on that.
\<close>

definition getVisibleMessages :: "state \<Rightarrow> storage \<Rightarrow> msg list \<times> int" where
  "getVisibleMessages st raw =
     (if no_peer st then ([], 0)
      else
        (let d = fst (loadData raw);
             c = getConversationId (peer_str st);
             all = filter (in_conv c) (msgs_of d);
             total = int (length all);
             fin = total;
             start = max 0 (fin - PAGE_SIZE * (pageIndex st + 1))
         in (slice start fin all, total)))"

section \<open>Message lifecycle\<close>

text \<open>
  Each operation loads the snapshot, changes messages in memory and saves. Rendering
  (\<^verbatim>\<open>renderMessages\<close>, \<^verbatim>\<open>updateSidebarPreviews\<close>) changes nothing that is modelled here.
  \<open>modify_first\<close> is the in-place change of the object that \<^verbatim>\<open>find\<close> returned.
\<close>

definition has_id :: "string \<Rightarrow> msg \<Rightarrow> bool" where
  "has_id i x \<longleftrightarrow> msg_id x = Some i"

fun modify_first :: "('a \<Rightarrow> bool) \<Rightarrow> ('a \<Rightarrow> 'a) \<Rightarrow> 'a list \<Rightarrow> 'a list" where
  "modify_first P f [] = []"
| "modify_first P f (x # xs) = (if P x then f x # xs else x # modify_first P f xs)"

definition with_msgs :: "snapshot \<Rightarrow> msg list \<Rightarrow> snapshot" where
  "with_msgs d ms = d\<lparr>messages := Some (map Some ms)\<rparr>"

definition set_status :: "int \<Rightarrow> status \<Rightarrow> msg \<Rightarrow> msg" where
  "set_status now s m = (if s = Seen then m\<lparr>status := s, seenAt := Some now\<rparr> else m\<lparr>status := s\<rparr>)"

definition updateStatus :: "int \<Rightarrow> string \<Rightarrow> status \<Rightarrow> storage \<Rightarrow> storage" where
  "updateStatus now messageId s raw =
     (let (d, raw1) = loadData raw; ms = msgs_of d in
      case find (has_id messageId) ms of
        None \<Rightarrow> raw1
      | Some m \<Rightarrow> saveData (with_msgs d (modify_first (has_id messageId) (set_status now s) ms)))"

definition unseen_peer_msg :: "string \<Rightarrow> msg \<Rightarrow> bool" where
  "unseen_peer_msg c m \<longleftrightarrow>
     convId m = c \<and> msg_from m \<noteq> ''me'' \<and> \<not> is_deleted m \<and> status m \<noteq> Seen"

text \<open>
  \<^verbatim>\<open>markAllSeenIfAtBottom\<close>; \<open>nearBottom\<close> is the outcome of the scroll test and \<open>now\<close> the
  clock, read once for the pass. The read marker it also writes lives under another
  storage key.
\<close>

definition markAllSeenIfAtBottom :: "int \<Rightarrow> bool \<Rightarrow> state \<Rightarrow> storage \<Rightarrow> storage" where
  "markAllSeenIfAtBottom now nearBottom st raw =
     (if no_peer st then raw
      else if \<not> nearBottom then raw
      else
        (let (d, raw1) = loadData raw;
             c = getConversationId (peer_str st);
             ms = msgs_of d;
             changed = list_ex (unseen_peer_msg c) ms
         in if changed
            then saveData (with_msgs d
                   (map (\<lambda>m. if unseen_peer_msg c m then m\<lparr>status := Seen, seenAt := Some now\<rparr> else m) ms))
            else raw1))"








section \<open>Timers, sending and the simulated reply\<close>

definition setTimeout :: "timer_job \<Rightarrow> world \<Rightarrow> nat \<times> world" where
  "setTimeout job w =
     (nextTimer w, w\<lparr>timers := timers w @ [(nextTimer w, job)], nextTimer := nextTimer w + 1\<rparr>)"

definition clearTimeout :: "nat \<Rightarrow> world \<Rightarrow> world" where
  "clearTimeout tid w = w\<lparr>timers := filter (\<lambda>(t, j). t \<noteq> tid) (timers w)\<rparr>"

text \<open>The guard shared by \<^verbatim>\<open>sendMessage\<close> and \<^verbatim>\<open>simulateBotResponse\<close>.\<close>

definition repeated :: "last_action option \<Rightarrow> string \<Rightarrow> jsstring \<Rightarrow> int \<Rightarrow> bool" where
  "repeated l c text now =
     (case l of
        None \<Rightarrow> False
      | Some a \<Rightarrow> la_convId a = c \<and> la_text a = text \<and> now - la_ts a < 600)"

definition simulateBotResponse :: "int \<Rightarrow> jsstring \<Rightarrow> string \<Rightarrow> string \<Rightarrow> world \<Rightarrow> world" where
  "simulateBotResponse now userText c peer w =
     (if repeated (lastBot (ui w)) c userText now then w
      else
        (let w1 = w\<lparr>ui := (ui w)\<lparr>lastBot := Some \<lparr>la_convId = c, la_text = userText, la_ts = now\<rparr>\<rparr>\<rparr>;
             w2 = (case map_of (botTimers w1) c of
                     None \<Rightarrow> w1
                   | Some prev \<Rightarrow>
                       if prev \<noteq> 0
                       then (clearTimeout prev w1)\<lparr>botTimers := AList.delete c (botTimers w1)\<rparr>
                       else w1);
             (tid, w3) = setTimeout (BotJob userText c peer) w2
         in w3\<lparr>botTimers := AList.update c tid (botTimers w3)\<rparr>))"

text \<open>
  \<^verbatim>\<open>sendMessage\<close> awaits the encryption, so it runs in two parts and other callbacks may
  run in between. The first part ends with the snapshot loaded; \<open>in_flight\<close> is what the
  second part keeps from it.
\<close>

record in_flight =
  fl_convId :: string
  fl_peer :: string
  fl_now :: int
  fl_text :: jsstring
  fl_data :: snapshot

definition sendMessage_begin :: "int \<Rightarrow> jsstring \<Rightarrow> world \<Rightarrow> world \<times> in_flight option" where
  "sendMessage_begin now text w =
     (if no_peer (ui w) then (w, None)
      else if sending (ui w) then (w, None)
      else
        (let c = getConversationId (peer_str (ui w)) in
         if repeated (lastSend (ui w)) c text now then (w, None)
         else
           (let st = (ui w)\<lparr>lastSend := Some \<lparr>la_convId = c, la_text = text, la_ts = now\<rparr>,
                             sending := True\<rparr>;
                (d, raw1) = loadData (store w)
            in (w\<lparr>ui := st, store := raw1\<rparr>,
                Some \<lparr>fl_convId = c, fl_peer = peer_str (ui w), fl_now = now, fl_text = text,
                      fl_data = d\<rparr>))))"

definition sent_msg :: "crypto \<Rightarrow> env \<Rightarrow> in_flight \<Rightarrow> msg" where
  "sent_msg C e fl =
     \<lparr>msg_id = Some (e_uuid e), convId = fl_convId fl, msg_from = ''me'', msg_to = fl_peer fl,
      cipher = Some (encryptMessage C (e_rnd e) (fl_convId fl) (fl_text fl)),
      createdAt = Some (fl_now fl), editedAt = None, deleted = None, status = Sent,
      seenAt = None\<rparr>"

definition sendMessage_finish :: "crypto \<Rightarrow> env \<Rightarrow> in_flight \<Rightarrow> world \<Rightarrow> world" where
  "sendMessage_finish C e fl w =
     (let msg = sent_msg C e fl;
          d = fl_data fl;
          w1 = w\<lparr>store := saveData (with_msgs d (msgs_of d @ [msg]))\<rparr>;
          (tid, w2) = setTimeout (StatusJob (e_uuid e) Delivered) w1;
          w3 = simulateBotResponse (e_now e) (fl_text fl) (fl_convId fl) (fl_peer fl) w2
      in w3\<lparr>ui := (ui w3)\<lparr>sending := False\<rparr>\<rparr>)"

text \<open>A send that nothing interrupts.\<close>

definition sendMessage :: "crypto \<Rightarrow> env \<Rightarrow> int \<Rightarrow> jsstring \<Rightarrow> world \<Rightarrow> world" where
  "sendMessage C e now text w =
     (case sendMessage_begin now text w of
        (w1, None) \<Rightarrow> w1
      | (w1, Some fl) \<Rightarrow> sendMessage_finish C e fl w1)"

definition flight :: "int \<Rightarrow> jsstring \<Rightarrow> world \<Rightarrow> in_flight" where
  "flight now text w =
     \<lparr>fl_convId = getConversationId (peer_str (ui w)), fl_peer = peer_str (ui w), fl_now = now,
      fl_text = text, fl_data = fst (loadData (store w))\<rparr>"

text \<open>The callback of the reply timer, run without interruption.\<close>

definition reply_msg :: "crypto \<Rightarrow> env \<Rightarrow> string \<Rightarrow> string \<Rightarrow> msg" where
  "reply_msg C e c peer =
     \<lparr>msg_id = Some (e_uuid e), convId = c, msg_from = peer, msg_to = ''me'',
      cipher = Some (encryptMessage C (e_rnd e) c (e_reply e)),
      createdAt = Some (e_now e), editedAt = None, deleted = None, status = Delivered,
      seenAt = None\<rparr>"

definition bot_callback :: "crypto \<Rightarrow> env \<Rightarrow> string \<Rightarrow> string \<Rightarrow> world \<Rightarrow> world" where
  "bot_callback C e c peer w =
     (let w1 = w\<lparr>botTimers := AList.delete c (botTimers w)\<rparr>;
          (d, raw1) = loadData (store w1);
          w2 = w1\<lparr>store := saveData (with_msgs d (msgs_of d @ [reply_msg C e c peer]))\<rparr>
      in if \<not> no_peer (ui w2) \<and> getConversationId (peer_str (ui w2)) = c
         then w2\<lparr>store := markAllSeenIfAtBottom (e_now e) (e_nearBottom e) (ui w2) (store w2)\<rparr>
         else w2)"

text \<open>A pending timer expires: the browser drops it from its table and runs the callback.\<close>

definition fire :: "crypto \<Rightarrow> env \<Rightarrow> nat \<Rightarrow> world \<Rightarrow> world" where
  "fire C e tid w =
     (case map_of (timers w) tid of
        None \<Rightarrow> w
      | Some job \<Rightarrow>
          (let w1 = clearTimeout tid w in
           case job of
             BotJob userText c peer \<Rightarrow> bot_callback C e c peer w1
           | StatusJob i s \<Rightarrow> w1\<lparr>store := updateStatus (e_now e) i s (store w1)\<rparr>
           | TypingJob \<Rightarrow> w1))"

text \<open>The \<^verbatim>\<open>input\<close> listener, as far as timers go: the typing timer is restarted.\<close>

definition on_input :: "world \<Rightarrow> world" where
  "on_input w =
     (let w1 = (case typingTimer (ui w) of None \<Rightarrow> w | Some t \<Rightarrow> clearTimeout t w);
          (tid, w2) = setTimeout TypingJob w1
      in w2\<lparr>ui := (ui w2)\<lparr>typingTimer := Some tid\<rparr>\<rparr>)"

text \<open>
  The states the program can reach. The last rule stands for everything that touches only
  the storage slot and the open conversation: switching the conversation, paging, editing,
  deleting, undoing, marking as seen.
\<close>

inductive reachable :: "crypto \<Rightarrow> world \<Rightarrow> bool" for C :: crypto where
  r_init: "reachable C init_world"
| r_begin: "reachable C w \<Longrightarrow> reachable C (fst (sendMessage_begin now text w))"
| r_finish: "reachable C w \<Longrightarrow> reachable C (sendMessage_finish C e fl w)"
| r_bot: "reachable C w \<Longrightarrow> reachable C (simulateBotResponse now text c p w)"
| r_fire: "reachable C w \<Longrightarrow> reachable C (fire C e tid w)"
| r_input: "reachable C w \<Longrightarrow> reachable C (on_input w)"
| r_other: "reachable C w \<Longrightarrow>
            reachable C (w\<lparr>store := s, ui := (ui w)\<lparr>peerId := p, pageIndex := k\<rparr>\<rparr>)"

text \<open>The reply timers pending for a conversation, and the invariant that ties the timer
  table to \<^verbatim>\<open>botTimers\<close>.\<close>

definition job_conv :: "timer_job \<Rightarrow> string option" where
  "job_conv j = (case j of BotJob u c p \<Rightarrow> Some c | _ \<Rightarrow> None)"

definition bot_timers_for :: "string \<Rightarrow> world \<Rightarrow> (nat \<times> timer_job) list" where
  "bot_timers_for c w = filter (\<lambda>(t, j). job_conv j = Some c) (timers w)"

definition tinv :: "(string \<times> nat) list \<Rightarrow> (nat \<times> timer_job) list \<Rightarrow> nat \<Rightarrow> nat option \<Rightarrow> bool" where
  "tinv bt ts nx tt \<longleftrightarrow>
     0 < nx \<and> (\<forall>(t, j) \<in> set ts. 0 < t \<and> t < nx)
     \<and> distinct (map fst ts) \<and> distinct (map fst bt)
     \<and> (\<forall>c t. (c, t) \<in> set bt \<longleftrightarrow> (\<exists>j. (t, j) \<in> set ts \<and> job_conv j = Some c))
     \<and> (\<forall>t. tt = Some t \<longrightarrow> t < nx \<and> (\<forall>j. (t, j) \<in> set ts \<longrightarrow> j = TypingJob))"

definition timers_inv :: "world \<Rightarrow> bool" where
  "timers_inv w = tinv (botTimers w) (timers w) (nextTimer w) (typingTimer (ui w))"

section \<open>Operations on the store, as a sequence\<close>


text \<open>The messages a \<^verbatim>\<open>loadData\<close> sees in a storage slot, and the status of one of them.\<close>

definition stored :: "storage \<Rightarrow> msg list" where
  "stored raw = msgs_of (fst (loadData raw))"

definition status_in :: "storage \<Rightarrow> string \<Rightarrow> status option" where
  "status_in raw i = map_option status (find (has_id i) (stored raw))"








text \<open>A message that compaction will neither merge nor drop when appended to \<open>xs\<close>.\<close>

definition fresh_msg :: "msg \<Rightarrow> msg list \<Rightarrow> bool" where
  "fresh_msg m xs \<longleftrightarrow>
     truthy_id m \<and> msg_id m \<notin> set (map msg_id xs) \<and> fingerprint m \<notin> set (map fingerprint xs)"

text \<open>The entries of the \<^verbatim>\<open>messages\<close> array as the storage slot holds them, read without
  \<^verbatim>\<open>loadData\<close>.\<close>

definition slot_msgs :: "storage \<Rightarrow> entry list" where
  "slot_msgs raw =
     (case raw of
        None \<Rightarrow> []
      | Some d \<Rightarrow> (case messages d of None \<Rightarrow> [] | Some xs \<Rightarrow> xs))"


section \<open>Sample inputs\<close>

definition store_of :: "msg list \<Rightarrow> storage" where
  "store_of ms = Some \<lparr>conversations = [], messages = Some (map Some ms)\<rparr>"

definition hello :: jsstring where
  "hello = js ''Hello''"

definition w_open :: world where
  "w_open = switchConversation ''u-1'' init_world"

definition st_open :: state where
  "st_open = ui w_open"

definition ev :: env where
  "ev = \<lparr>e_now = 1000, e_uuid = ''id-1'', e_rnd = rnd12, e_nearBottom = True, e_reply = js ''ok''\<rparr>"






text \<open>The message that a send of \<open>t\<close> to the peer \<open>p\<close> at time \<open>now\<close> stores under the id
  \<open>i\<close>, and three sends in a row: to \<open>u-1\<close>, to \<open>u-2\<close> and to \<open>u-1\<close> again.\<close>

definition sample_sent :: "string \<Rightarrow> string \<Rightarrow> jsstring \<Rightarrow> int \<Rightarrow> msg" where
  "sample_sent i p t now =
     \<lparr>msg_id = Some i, convId = ''conv-'' @ p, msg_from = ''me'', msg_to = p,
      cipher = Some (encryptMessage toy_crypto rnd12 (''conv-'' @ p) t),
      createdAt = Some now, editedAt = None, deleted = None, status = Sent, seenAt = None\<rparr>"

definition w_s1 :: world where
  "w_s1 = sendMessage toy_crypto ev 1000 hello w_open"

definition w_s2 :: world where
  "w_s2 = sendMessage toy_crypto (ev\<lparr>e_uuid := ''id-2''\<rparr>) 1100 (js ''x'') (switchConversation ''u-2'' w_s1)"

definition w_s3 :: world where
  "w_s3 = sendMessage toy_crypto (ev\<lparr>e_uuid := ''id-3''\<rparr>) 1200 hello (switchConversation ''u-1'' w_s2)"


section \<open>Properties of the compaction\<close>

lemma update_fresh: "k \<notin> fst ` set al \<Longrightarrow> AList.update k v al = al @ [(k, v)]"
  by (induction al) auto

lemma set_update_subset: "set (AList.update k v al) \<subseteq> insert (k, v) (set al)"
  by (induction al) auto

lemma byId_step_keys: "distinct (map fst acc) \<Longrightarrow> distinct (map fst (byId_step e acc))"
  by (auto simp: byId_step_def AList.distinct_update split: option.splits)

lemma fold_byId_distinct: "distinct (map fst acc) \<Longrightarrow> distinct (map fst (fold byId_step xs acc))"
  by (induction xs arbitrary: acc) (auto simp: byId_step_keys)

lemma byId_step_inv: "id_inv acc \<Longrightarrow> id_inv (byId_step e acc)"
  using set_update_subset
  by (fastforce simp: byId_step_def id_inv_def split: option.splits)

lemma fold_byId_inv: "id_inv acc \<Longrightarrow> id_inv (fold byId_step xs acc)"
  by (induction xs arbitrary: acc) (auto simp: byId_step_inv)

lemma snd_update_subset: "snd ` set (AList.update k v al) \<subseteq> insert v (snd ` set al)"
  by (induction al) auto

lemma byId_step_sub: "snd ` set (byId_step e acc) \<subseteq> snd ` set acc \<union> {m. e = Some m \<and> truthy_id m}"
proof (cases e)
  case None
  then show ?thesis by (simp add: byId_step_def)
next
  case (Some m)
  show ?thesis
  proof (cases "truthy_id m")
    case True
    then obtain i where i: "msg_id m = Some i" "i \<noteq> []"
      by (auto simp: truthy_id_def split: option.splits)
    have "byId_step e acc = AList.update i m acc"
      using Some i by (simp add: byId_step_def)
    then show ?thesis
      using snd_update_subset[of i m acc] Some True by auto
  next
    case False
    then have "byId_step e acc = acc"
      using Some by (auto simp: byId_step_def truthy_id_def split: option.splits)
    then show ?thesis by auto
  qed
qed

lemma fold_byId_sub: "snd ` set (fold byId_step xs acc) \<subseteq> snd ` set acc \<union> {m. Some m \<in> set xs \<and> truthy_id m}"
proof (induction xs arbitrary: acc)
  case Nil then show ?case by simp
next
  case (Cons e xs)
  show ?case using Cons.IH[of "byId_step e acc"] byId_step_sub[of e acc] by auto
qed

lemma byFp_step_keys: "distinct (map fst acc) \<Longrightarrow> distinct (map fst (byFp_step m acc))"
  by (auto simp: byFp_step_def Let_def AList.distinct_update split: option.splits)

lemma fold_byFp_distinct: "distinct (map fst acc) \<Longrightarrow> distinct (map fst (fold byFp_step xs acc))"
  by (induction xs arbitrary: acc) (auto simp: byFp_step_keys)

lemma byFp_step_inv: "fp_inv acc \<Longrightarrow> fp_inv (byFp_step m acc)"
  using set_update_subset
  by (fastforce simp: byFp_step_def fp_inv_def Let_def split: option.splits)

lemma fold_byFp_inv: "fp_inv acc \<Longrightarrow> fp_inv (fold byFp_step xs acc)"
  by (induction xs arbitrary: acc) (auto simp: byFp_step_inv)

lemma byFp_step_sub: "snd ` set (byFp_step m acc) \<subseteq> insert m (snd ` set acc)"
  using snd_update_subset[of _ _ acc]
  by (auto simp: byFp_step_def Let_def split: option.splits)

lemma fold_byFp_sub: "snd ` set (fold byFp_step xs acc) \<subseteq> snd ` set acc \<union> set xs"
proof (induction xs arbitrary: acc)
  case Nil then show ?case by simp
next
  case (Cons e xs)
  show ?case using Cons.IH[of "byFp_step e acc"] byFp_step_sub[of e acc] by auto
qed

lemma fold_byId_fresh:
  assumes "\<forall>m \<in> set xs. truthy_id m" "distinct (map msg_id xs)"
    and "\<forall>m \<in> set xs. the (msg_id m) \<notin> fst ` set acc"
  shows "fold byId_step (map Some xs) acc = acc @ map (\<lambda>m. (the (msg_id m), m)) xs"
  using assms
proof (induction xs arbitrary: acc)
  case Nil
  then show ?case by simp
next
  case (Cons m xs)
  from Cons.prems(1) obtain i where i: "msg_id m = Some i" "i \<noteq> []"
    by (auto simp: truthy_id_def split: option.splits)
  have fresh: "i \<notin> fst ` set acc" using Cons.prems(3) i by auto
  have step: "byId_step (Some m) acc = acc @ [(i, m)]"
    using i fresh by (simp add: byId_step_def update_fresh)
  have "\<forall>m' \<in> set xs. the (msg_id m') \<notin> fst ` set (acc @ [(i, m)])"
  proof
    fix m' assume m': "m' \<in> set xs"
    then obtain j where j: "msg_id m' = Some j"
      using Cons.prems(1) by (auto simp: truthy_id_def split: option.splits)
    have "msg_id m \<notin> msg_id ` set xs" using Cons.prems(2) by simp
    then have "msg_id m' \<noteq> msg_id m" using m' by (metis imageI)
    then have "j \<noteq> i" using i j by auto
    moreover have "the (msg_id m') \<notin> fst ` set acc" using Cons.prems(3) m' by simp
    then have "j \<notin> fst ` set acc" using j by simp
    ultimately show "the (msg_id m') \<notin> fst ` set (acc @ [(i, m)])" using j by simp
  qed
  then have "fold byId_step (map Some xs) (acc @ [(i, m)]) =
      (acc @ [(i, m)]) @ map (\<lambda>m. (the (msg_id m), m)) xs"
    using Cons.IH[of "acc @ [(i, m)]"] Cons.prems(1,2) by simp
  then show ?case using step i by simp
qed

lemma fold_byFp_fresh:
  assumes "distinct (map fingerprint xs)"
    and "\<forall>m \<in> set xs. fingerprint m \<notin> fst ` set acc"
  shows "fold byFp_step xs acc = acc @ map (\<lambda>m. (fingerprint m, m)) xs"
  using assms
proof (induction xs arbitrary: acc)
  case Nil
  then show ?case by simp
next
  case (Cons m xs)
  have fresh: "fingerprint m \<notin> fst ` set acc" using Cons.prems(2) by simp
  then have "map_of acc (fingerprint m) = None"
    by (simp add: map_of_eq_None_iff)
  then have step: "byFp_step m acc = acc @ [(fingerprint m, m)]"
    using fresh by (simp add: byFp_step_def update_fresh)
  have "fingerprint m \<notin> fingerprint ` set xs" using Cons.prems(1) by simp
  then have "\<forall>m' \<in> set xs. fingerprint m' \<noteq> fingerprint m" by (metis imageI)
  then have "\<forall>m' \<in> set xs. fingerprint m' \<notin> fst ` set (acc @ [(fingerprint m, m)])"
    using Cons.prems(2) by auto
  then have "fold byFp_step xs (acc @ [(fingerprint m, m)]) =
      (acc @ [(fingerprint m, m)]) @ map (\<lambda>m. (fingerprint m, m)) xs"
    using Cons.IH[of "acc @ [(fingerprint m, m)]"] Cons.prems(1) by simp
  then show ?case using step by simp
qed

lemma idMerge_fixed:
  "list_all truthy_id xs \<Longrightarrow> distinct (map msg_id xs) \<Longrightarrow> idMerge (map Some xs) = xs"
  using fold_byId_fresh[of xs "[]"]
  by (simp add: idMerge_def list_all_iff comp_def)

lemma fpMerge_fixed: "distinct (map fingerprint xs) \<Longrightarrow> fpMerge xs = xs"
  using fold_byFp_fresh[of xs "[]"]
  by (simp add: fpMerge_def comp_def)

lemma compact_fixed: "compacted xs \<Longrightarrow> compact (map Some xs) = xs"
  by (simp add: compacted_def compact_def idMerge_fixed fpMerge_fixed sort_key_id_if_sorted)

lemma idMerge_truthy: "list_all truthy_id (idMerge xs)"
proof -
  have "id_inv (fold byId_step xs [])"
    by (rule fold_byId_inv) (simp add: id_inv_def)
  then show ?thesis
    by (auto simp: idMerge_def id_inv_def list_all_iff truthy_id_def)
qed

lemma idMerge_distinct: "distinct (map msg_id (idMerge xs))"
proof -
  let ?al = "fold byId_step xs []"
  have inv: "id_inv ?al"
    by (rule fold_byId_inv) (simp add: id_inv_def)
  have d: "distinct (map fst ?al)"
    by (rule fold_byId_distinct) simp
  have "map msg_id (idMerge xs) = map (Some \<circ> fst) ?al"
    using inv by (auto simp: idMerge_def id_inv_def)
  also have "\<dots> = map Some (map fst ?al)" by simp
  finally show ?thesis using d by (simp only: distinct_map) (auto simp: inj_on_def)
qed

lemma fpMerge_distinct_fp: "distinct (map fingerprint (fpMerge xs))"
proof -
  let ?al = "fold byFp_step xs []"
  have inv: "fp_inv ?al"
    by (rule fold_byFp_inv) (simp add: fp_inv_def)
  have d: "distinct (map fst ?al)"
    by (rule fold_byFp_distinct) simp
  have "map fingerprint (fpMerge xs) = map fst ?al"
    using inv by (auto simp: fpMerge_def fp_inv_def)
  then show ?thesis using d by simp
qed

lemma fpMerge_subset: "set (fpMerge xs) \<subseteq> set xs"
  using fold_byFp_sub[of xs "[]"] by (simp add: fpMerge_def)

lemma idMerge_subset: "set (idMerge xs) \<subseteq> {m. Some m \<in> set xs \<and> truthy_id m}"
  using fold_byId_sub[of xs "[]"] by (simp add: idMerge_def)

lemma fpMerge_distinct_id:
  assumes "distinct (map msg_id xs)"
  shows "distinct (map msg_id (fpMerge xs))"
proof -
  have "distinct (fpMerge xs)"
    using fpMerge_distinct_fp[of xs] by (simp add: distinct_map)
  moreover have "inj_on msg_id (set (fpMerge xs))"
    using assms fpMerge_subset[of xs] by (auto simp: distinct_map intro: inj_on_subset)
  ultimately show ?thesis by (simp add: distinct_map)
qed

lemma compacted_compact: "compacted (compact xs)"
proof -
  let ?ys = "fpMerge (idMerge xs)"
  have t: "list_all truthy_id ?ys"
    using idMerge_truthy[of xs] fpMerge_subset[of "idMerge xs"] by (auto simp: list_all_iff)
  have i: "distinct (map msg_id ?ys)"
    by (rule fpMerge_distinct_id) (rule idMerge_distinct)
  have f: "distinct (map fingerprint ?ys)" by (rule fpMerge_distinct_fp)
  have di: "distinct (map msg_id (sort_key created ?ys))"
    using i by (simp add: distinct_map)
  have df: "distinct (map fingerprint (sort_key created ?ys))"
    using f by (simp add: distinct_map)
  show ?thesis
    using t di df by (simp add: compacted_def compact_def list_all_iff)
qed

lemma filter_wf_fold: "fold byId_step (filter well_formed_entry xs) acc = fold byId_step xs acc"
proof (induction xs arbitrary: acc)
  case Nil then show ?case by simp
next
  case (Cons e xs)
  have "\<not> well_formed_entry e \<Longrightarrow> byId_step e acc = acc"
    by (auto simp: well_formed_entry_def truthy_id_def byId_step_def split: option.splits)
  then show ?case using Cons.IH by (cases "well_formed_entry e") simp_all
qed

lemma compact_filter_wf: "compact (filter well_formed_entry S) = compact S"
  by (simp add: compact_def idMerge_def filter_wf_fold)

lemma same_fields_fp: "same_fields a b \<Longrightarrow> bucket a = bucket b \<Longrightarrow> fingerprint a = fingerprint b"
  by (auto simp: same_fields_def fingerprint_def ivStr_def dataStr_def nonce_def data_prefix_def
      split: option.splits)

lemma byFp_step_seen:
  assumes "seen_inv al seen"
  shows "seen_inv (byFp_step m al) (insert m seen)"
proof (cases "map_of al (fingerprint m)")
  case None
  then have "byFp_step m al = AList.update (fingerprint m) m al"
    by (simp add: byFp_step_def)
  then show ?thesis
    using assms None by (auto simp: seen_inv_def AList.update_conv')
next
  case (Some prev)
  show ?thesis
  proof (cases "created m \<ge> created prev")
    case True
    then have "byFp_step m al = AList.update (fingerprint m) m al"
      using Some by (simp add: byFp_step_def)
    then show ?thesis
      using assms Some True by (fastforce simp: seen_inv_def AList.update_conv')
  next
    case False
    then have "byFp_step m al = al"
      using Some by (simp add: byFp_step_def)
    then show ?thesis
      using assms Some False by (auto simp: seen_inv_def)
  qed
qed

lemma fold_byFp_seen: "seen_inv al seen \<Longrightarrow> seen_inv (fold byFp_step xs al) (seen \<union> set xs)"
proof (induction xs arbitrary: al seen)
  case Nil then show ?case by simp
next
  case (Cons m xs)
  have "seen_inv (fold byFp_step xs (byFp_step m al)) (insert m seen \<union> set xs)"
    by (rule Cons.IH) (rule byFp_step_seen[OF Cons.prems])
  then show ?case by simp
qed

lemma fpMerge_keeps_latest:
  assumes "a \<in> set (fpMerge arr)" "b \<in> set arr" "fingerprint a = fingerprint b"
  shows "created b \<le> created a"
proof -
  let ?al = "fold byFp_step arr []"
  have inv: "fp_inv ?al" by (rule fold_byFp_inv) (simp add: fp_inv_def)
  have d: "distinct (map fst ?al)" by (rule fold_byFp_distinct) simp
  have "seen_inv ?al ({} \<union> set arr)" by (rule fold_byFp_seen) (simp add: seen_inv_def)
  then obtain v where v: "map_of ?al (fingerprint b) = Some v" "created b \<le> created v"
    using assms(2) by (auto simp: seen_inv_def)
  from assms(1) obtain k where "(k, a) \<in> set ?al" by (auto simp: fpMerge_def)
  moreover from this inv have "k = fingerprint a" by (auto simp: fp_inv_def)
  ultimately have "map_of ?al (fingerprint a) = Some a" using d by simp
  then show ?thesis using v assms(3) by simp
qed

lemma compact_pair:
  assumes "truthy_id a" "truthy_id b" "msg_id a \<noteq> msg_id b" "fingerprint a = fingerprint b"
  shows "compact [Some a, Some b] = [if created a \<le> created b then b else a]"
proof -
  have "idMerge (map Some [a, b]) = [a, b]"
    by (rule idMerge_fixed) (use assms in auto)
  then have "idMerge [Some a, Some b] = [a, b]" by simp
  moreover have "fpMerge [a, b] = [if created a \<le> created b then b else a]"
    using assms(4) by (simp add: fpMerge_def byFp_step_def)
  ultimately show ?thesis by (simp add: compact_def)
qed

text \<open>
  Claim C1. Compaction is idempotent: compacting an already compacted message list gives
  the same list, and so does building the cleaned snapshot of \<^verbatim>\<open>saveData\<close> a second time.
\<close>

theorem compact_idempotent:
  "compact (map Some (compact S)) = compact S \<and> clean (clean d) = clean d"
proof -
  have c: "compact (map Some (compact T)) = compact T" for T
    by (rule compact_fixed) (rule compacted_compact)
  then show ?thesis by (simp add: clean_def)
qed

lemma slot_save: "slot_msgs (saveData d) = map Some (compact (case messages d of Some xs \<Rightarrow> xs | None \<Rightarrow> []))"
  by (simp add: slot_msgs_def saveData_def clean_def)

text \<open>
  Claim C10. Compaction discards malformed entries: the result is the one obtained from the
  well-formed entries alone, and every message that survives has a truthy id and was an
  entry of the input. Saving a snapshot writes into the storage slot the compaction of its
  well-formed entries: every entry of the slot is then well-formed, and no malformed entry
  of the snapshot is in the slot any more.
\<close>

theorem compaction_discards_malformed:
  "compact S = compact (filter well_formed_entry S)
   \<and> (\<forall>m \<in> set (compact S). truthy_id m \<and> Some m \<in> set S)
   \<and> (messages d = Some S \<longrightarrow>
        slot_msgs (saveData d) = map Some (compact (filter well_formed_entry S))
        \<and> list_all well_formed_entry (slot_msgs (saveData d))
        \<and> (\<forall>e \<in> set S. \<not> well_formed_entry e \<longrightarrow> e \<notin> set (slot_msgs (saveData d))))"
proof -
  have sub: "set (compact T) \<subseteq> {m. Some m \<in> set T \<and> truthy_id m}" for T
    using fpMerge_subset[of "idMerge T"] idMerge_subset[of T] by (auto simp: compact_def)
  have wf: "list_all well_formed_entry (map Some (compact T))" for T
    using sub[of T] by (auto simp: list_all_iff well_formed_entry_def)
  have slot: "slot_msgs (saveData d) = map Some (compact (filter well_formed_entry S))"
    if "messages d = Some S"
    using that by (simp add: slot_save compact_filter_wf)
  have gone: "e \<notin> set (slot_msgs (saveData d))"
    if "messages d = Some S" "\<not> well_formed_entry e" for e
    using slot[OF that(1)] wf[of "filter well_formed_entry S"] that(2) by (auto simp: list_all_iff)
  show ?thesis
    using sub[of S] slot gone wf[of "filter well_formed_entry S"]
    by (auto simp: compact_filter_wf)
qed

theorem compaction_discards_malformed_witness:
  "saveData \<lparr>conversations = [], messages = Some [None, Some (ex_msg [] 3),
       Some ((ex_msg ''x'' 5)\<lparr>msg_id := None\<rparr>), Some (ex_msg ''a'' 150)]\<rparr>
   = Some \<lparr>conversations = [], messages = Some [Some (ex_msg ''a'' 150)]\<rparr>"
proof -
  let ?S = "[None, Some (ex_msg [] 3), Some ((ex_msg ''x'' 5)\<lparr>msg_id := None\<rparr>),
             Some (ex_msg ''a'' 150)]"
  let ?d = "\<lparr>conversations = [], messages = Some ?S\<rparr>"
  have f: "filter well_formed_entry ?S = [Some (ex_msg ''a'' 150)]"
    by (simp add: well_formed_entry_def truthy_id_def ex_msg_def)
  have c: "compact [Some (ex_msg ''a'' 150)] = [ex_msg ''a'' 150]"
    by code_simp
  have "slot_msgs (saveData ?d) = [Some (ex_msg ''a'' 150)]"
    using compaction_discards_malformed[of ?S ?d] f c by simp
  then show ?thesis
    by (simp add: slot_msgs_def saveData_def clean_def)
qed

text \<open>
  Claim C2, as amended. The bucket is \<^verbatim>\<open>Math.round(createdAt / 200)\<close>, not the floor.
  Two messages that agree on conversation, sender, recipient, nonce bytes and the first 24
  ciphertext bytes and fall into the same rounded bucket have the same fingerprint: a list
  made of the two (with distinct truthy ids) compacts to the one with the larger
  \<^verbatim>\<open>createdAt\<close>, a tie going to the later one; and in any list in which both are still
  present after the identity merge (neither has been replaced by a later entry under its
  id), the one with the strictly smaller \<^verbatim>\<open>createdAt\<close> does not survive.
\<close>

theorem fingerprint_collapse:
  assumes "same_fields a b" "bucket a = bucket b"
  shows "(truthy_id a \<and> truthy_id b \<and> msg_id a \<noteq> msg_id b \<longrightarrow>
            compact [Some a, Some b] = [if created a \<le> created b then b else a])
       \<and> (\<forall>S. a \<in> set (idMerge S) \<and> b \<in> set (idMerge S) \<and> created a < created b \<longrightarrow>
            a \<notin> set (compact S))"
proof -
  have fp: "fingerprint a = fingerprint b" using assms by (rule same_fields_fp)
  have "a \<notin> set (compact S)"
    if "a \<in> set (idMerge S)" "b \<in> set (idMerge S)" "created a < created b" for S
  proof
    assume "a \<in> set (compact S)"
    then have "a \<in> set (fpMerge (idMerge S))" by (simp add: compact_def)
    then have "created b \<le> created a" using that(2) fp by (rule fpMerge_keeps_latest)
    then show False using that(3) by simp
  qed
  then show ?thesis using compact_pair[OF _ _ _ fp] by blast
qed

theorem fingerprint_collapse_witness:
  "same_fields (ex_msg ''a'' 150) (ex_msg ''b'' 260)
   \<and> bucket (ex_msg ''a'' 150) = bucket (ex_msg ''b'' 260)
   \<and> compact [Some (ex_msg ''a'' 150), Some (ex_msg ''b'' 260)] = [ex_msg ''b'' 260]"
proof -
  have s: "same_fields (ex_msg ''a'' 150) (ex_msg ''b'' 260)"
    by (simp add: same_fields_def ex_msg_def nonce_def data_prefix_def)
  have b: "bucket (ex_msg ''a'' 150) = bucket (ex_msg ''b'' 260)"
    by (simp add: bucket_def created_def ex_msg_def)
  have t: "truthy_id (ex_msg ''a'' 150) \<and> truthy_id (ex_msg ''b'' 260)
           \<and> msg_id (ex_msg ''a'' 150) \<noteq> msg_id (ex_msg ''b'' 260)
           \<and> created (ex_msg ''a'' 150) \<le> created (ex_msg ''b'' 260)"
    by (simp add: truthy_id_def created_def ex_msg_def)
  show ?thesis
    using fingerprint_collapse[OF s b] s b t by simp
qed

text \<open>
  Claim C2 as stated fails: 99 and 100 lie in the same floor bucket, yet the code puts them
  into the rounded buckets 0 and 1 and keeps both messages.
\<close>

theorem fingerprint_collapse_floor_counterexample:
  "same_fields (ex_msg ''a'' 99) (ex_msg ''b'' 100)
   \<and> floor_bucket (ex_msg ''a'' 99) = floor_bucket (ex_msg ''b'' 100)
   \<and> compact [Some (ex_msg ''a'' 99), Some (ex_msg ''b'' 100)] = [ex_msg ''a'' 99, ex_msg ''b'' 100]"
proof -
  have "compact [Some (ex_msg ''a'' 99), Some (ex_msg ''b'' 100)] = [ex_msg ''a'' 99, ex_msg ''b'' 100]"
    by code_simp
  then show ?thesis
    by (simp add: same_fields_def ex_msg_def floor_bucket_def created_def nonce_def data_prefix_def)
qed

section \<open>Properties of the text encoding\<close>

lemma dec_cp1:
  assumes "c < 0x80"
  shows "utf8_dec 0 0 0 0x80 0xBF (utf8_cp c @ rest) = c # utf8_dec 0 0 0 0x80 0xBF rest"
  using assms by (simp add: utf8_cp_def)

lemma div_bounds: "lo * k \<le> c \<Longrightarrow> c < hi * k \<Longrightarrow> 0 < k \<Longrightarrow> lo \<le> c div k \<and> c div k < hi" for c :: nat
  by (simp add: less_eq_div_iff_mult_less_eq div_less_iff_less_mult)

lemma lead_mod: "x < m \<Longrightarrow> (j * m + x) mod m = x" for x :: nat
  by simp

lemma dec2:
  assumes "0xC2 \<le> b1" "b1 \<le> 0xDF" "0x80 \<le> b2" "b2 \<le> 0xBF"
  shows "utf8_dec 0 0 0 0x80 0xBF (b1 # b2 # rest) =
         (b1 mod 32 * 64 + b2 mod 64) # utf8_dec 0 0 0 0x80 0xBF rest"
  using assms by simp

lemma dec3:
  assumes "0xE0 \<le> b1" "b1 \<le> 0xEF"
    and "(if b1 = 0xE0 then 0xA0 else 0x80) \<le> b2" "b2 \<le> (if b1 = 0xED then 0x9F else 0xBF)"
    and "0x80 \<le> b3" "b3 \<le> 0xBF"
  shows "utf8_dec 0 0 0 0x80 0xBF (b1 # b2 # b3 # rest) =
         ((b1 mod 16 * 64 + b2 mod 64) * 64 + b3 mod 64) # utf8_dec 0 0 0 0x80 0xBF rest"
  using assms by simp

lemma dec4:
  assumes "0xF0 \<le> b1" "b1 \<le> 0xF4"
    and "(if b1 = 0xF0 then 0x90 else 0x80) \<le> b2" "b2 \<le> (if b1 = 0xF4 then 0x8F else 0xBF)"
    and "0x80 \<le> b3" "b3 \<le> 0xBF" "0x80 \<le> b4" "b4 \<le> 0xBF"
  shows "utf8_dec 0 0 0 0x80 0xBF (b1 # b2 # b3 # b4 # rest) =
         (((b1 mod 8 * 64 + b2 mod 64) * 64 + b3 mod 64) * 64 + b4 mod 64)
         # utf8_dec 0 0 0 0x80 0xBF rest"
  using assms by simp

lemma dec_cp2:
  assumes "0x80 \<le> c" "c < 0x800"
  shows "utf8_dec 0 0 0 0x80 0xBF (utf8_cp c @ rest) = c # utf8_dec 0 0 0 0x80 0xBF rest"
proof -
  define q where "q = c div 64"
  define r where "r = c mod 64"
  have c: "q * 64 + r = c" and r: "r < 64" by (simp_all add: q_def r_def)
  have q: "2 \<le> q \<and> q < 32" using div_bounds[of 2 64 c 32] assms by (simp add: q_def)
  have enc: "utf8_cp c = [192 + q, 128 + r]" using assms by (simp add: utf8_cp_def q_def r_def)
  have m1: "(192 + q) mod 32 = q" using lead_mod[of q 32 6] q by simp
  have m2: "(128 + r) mod 64 = r" using lead_mod[of r 64 2] r by simp
  have "utf8_dec 0 0 0 0x80 0xBF ((192 + q) # (128 + r) # rest) =
        ((192 + q) mod 32 * 64 + (128 + r) mod 64) # utf8_dec 0 0 0 0x80 0xBF rest"
    by (rule dec2) (use q r in simp_all)
  then show ?thesis by (simp only: enc m1 m2 c append_Cons append_Nil)
qed

lemma dec_cp3:
  assumes "0x800 \<le> c" "c < 0x10000" "\<not> (0xD800 \<le> c \<and> c \<le> 0xDFFF)"
  shows "utf8_dec 0 0 0 0x80 0xBF (utf8_cp c @ rest) = c # utf8_dec 0 0 0 0x80 0xBF rest"
proof -
  define e where "e = c div 64"
  define d where "d = c mod 64"
  define a where "a = e div 64"
  define b where "b = e mod 64"
  have c: "e * 64 + d = c" and d: "d < 64" by (simp_all add: e_def d_def)
  have e: "a * 64 + b = e" and b: "b < 64" by (simp_all add: a_def b_def)
  have eb: "32 \<le> e \<and> e < 1024" using div_bounds[of 32 64 c 1024] assms by (simp add: e_def)
  have ab: "a < 16" using div_bounds[of 0 64 e 16] eb by (simp add: a_def)
  have a4096: "c div 4096 = a" by (simp add: a_def e_def div_mult2_eq)
  have enc: "utf8_cp c = [224 + a, 128 + b, 128 + d]"
    using assms(1,2) a4096 by (simp add: utf8_cp_def b_def e_def d_def)
  have m1: "(224 + a) mod 16 = a" using lead_mod[of a 16 14] ab by simp
  have m2: "(128 + b) mod 64 = b" using lead_mod[of b 64 2] b by simp
  have m3: "(128 + d) mod 64 = d" using lead_mod[of d 64 2] d by simp
  have lo: "(if 224 + a = 0xE0 then 0xA0 else 0x80) \<le> 128 + b"
    using e eb by auto
  have hi: "128 + b \<le> (if 224 + a = 0xED then 0x9F else 0xBF)"
  proof (cases "a = 13")
    case True
    have "b < 32"
    proof (rule ccontr)
      assume "\<not> b < 32"
      then have "0xD800 \<le> c \<and> c \<le> 0xDFFF" using True e c b d by simp
      then show False using assms(3) by simp
    qed
    then show ?thesis using True by simp
  next
    case False
    then show ?thesis using b by simp
  qed
  have "utf8_dec 0 0 0 0x80 0xBF ((224 + a) # (128 + b) # (128 + d) # rest) =
        (((224 + a) mod 16 * 64 + (128 + b) mod 64) * 64 + (128 + d) mod 64)
        # utf8_dec 0 0 0 0x80 0xBF rest"
    by (rule dec3) (use ab b d lo hi in simp_all)
  then show ?thesis by (simp only: enc m1 m2 m3 e c append_Cons append_Nil)
qed

lemma dec_cp4:
  assumes "0x10000 \<le> c" "c < 0x110000"
  shows "utf8_dec 0 0 0 0x80 0xBF (utf8_cp c @ rest) = c # utf8_dec 0 0 0 0x80 0xBF rest"
proof -
  define e where "e = c div 64"
  define d where "d = c mod 64"
  define f where "f = e div 64"
  define b where "b = e mod 64"
  define a where "a = f div 64"
  define g where "g = f mod 64"
  have c: "e * 64 + d = c" and d: "d < 64" by (simp_all add: e_def d_def)
  have e: "f * 64 + b = e" and b: "b < 64" by (simp_all add: f_def b_def)
  have f: "a * 64 + g = f" and g: "g < 64" by (simp_all add: a_def g_def)
  have eb: "1024 \<le> e \<and> e < 17408" using div_bounds[of 1024 64 c 17408] assms by (simp add: e_def)
  have fb: "16 \<le> f \<and> f < 272" using div_bounds[of 16 64 e 272] eb by (simp add: f_def)
  have ab: "a < 5" using div_bounds[of 0 64 f 5] fb by (simp add: a_def)
  have f4096: "c div 4096 = f" by (simp add: f_def e_def div_mult2_eq)
  have a262144: "c div 262144 = a" by (simp add: a_def f_def e_def div_mult2_eq)
  have enc: "utf8_cp c = [240 + a, 128 + g, 128 + b, 128 + d]"
    using assms f4096 a262144 by (simp add: utf8_cp_def g_def b_def e_def d_def)
  have m1: "(240 + a) mod 8 = a" using lead_mod[of a 8 30] ab by simp
  have m2: "(128 + g) mod 64 = g" using lead_mod[of g 64 2] g by simp
  have m3: "(128 + b) mod 64 = b" using lead_mod[of b 64 2] b by simp
  have m4: "(128 + d) mod 64 = d" using lead_mod[of d 64 2] d by simp
  have lo: "(if 240 + a = 0xF0 then 0x90 else 0x80) \<le> 128 + g"
    using f fb by auto
  have hi: "128 + g \<le> (if 240 + a = 0xF4 then 0x8F else 0xBF)"
    using f fb g by auto
  have "utf8_dec 0 0 0 0x80 0xBF ((240 + a) # (128 + g) # (128 + b) # (128 + d) # rest) =
        ((((240 + a) mod 8 * 64 + (128 + g) mod 64) * 64 + (128 + b) mod 64) * 64
          + (128 + d) mod 64) # utf8_dec 0 0 0 0x80 0xBF rest"
    by (rule dec4) (use ab g b d lo hi in simp_all)
  then show ?thesis by (simp only: enc m1 m2 m3 m4 f e c append_Cons append_Nil)
qed

lemma dec_cp:
  assumes "valid_scalar c"
  shows "utf8_dec 0 0 0 0x80 0xBF (utf8_cp c @ rest) = c # utf8_dec 0 0 0 0x80 0xBF rest"
proof -
  consider "c < 0x80" | "0x80 \<le> c" "c < 0x800" | "0x800 \<le> c" "c < 0x10000" | "0x10000 \<le> c"
    by linarith
  then show ?thesis
  proof cases
    case 1 then show ?thesis by (simp add: utf8_cp_def)
  next
    case 2 then show ?thesis by (rule dec_cp2)
  next
    case 3 then show ?thesis using assms by (intro dec_cp3) (simp_all add: valid_scalar_def)
  next
    case 4 then show ?thesis using assms by (intro dec_cp4) (simp_all add: valid_scalar_def)
  qed
qed

lemma dec_all:
  "\<forall>c \<in> set cs. valid_scalar c \<Longrightarrow>
   utf8_dec 0 0 0 0x80 0xBF (concat (map utf8_cp cs)) = cs"
  by (induction cs) (simp_all add: dec_cp)

lemma utf8_cp_bytes: "valid_scalar c \<Longrightarrow> \<forall>b \<in> set (utf8_cp c). b < 256"
proof -
  assume v: "valid_scalar c"
  have m: "x mod 64 < 64" for x :: nat by simp
  have "c < 0x800 \<Longrightarrow> c div 64 < 32" using div_bounds[of 0 64 c 32] by simp
  moreover have "c < 0x10000 \<Longrightarrow> c div 4096 < 16" using div_bounds[of 0 4096 c 16] by simp
  moreover have "c div 262144 < 5" using div_bounds[of 0 262144 c 5] v by (simp add: valid_scalar_def)
  ultimately show ?thesis
    using m[of c] m[of "c div 64"] m[of "c div 4096"] by (auto simp: utf8_cp_def)
qed

lemma scalars_valid:
  "well_formed16 us \<Longrightarrow> \<forall>u \<in> set us. u < 0x10000 \<Longrightarrow> \<forall>c \<in> set (scalars us). valid_scalar c"
proof (induction us rule: scalars.induct)
  case 1 then show ?case by simp
next
  case (2 u) then show ?case by (auto simp: valid_scalar_def is_high_def is_low_def)
next
  case (3 u v us)
  show ?case
  proof (cases "is_high u")
    case True
    then have lv: "is_low v" and wf: "well_formed16 us" using "3.prems"(1) by simp_all
    define h where "h = u - 0xD800"
    define x where "x = v - 0xDC00"
    have "h < 0x400" "x < 0x400"
      using True lv unfolding h_def x_def is_high_def is_low_def by linarith+
    then have "valid_scalar (0x10000 + h * 0x400 + x)"
      by (simp add: valid_scalar_def)
    then have "valid_scalar (0x10000 + (u - 0xD800) * 0x400 + (v - 0xDC00))"
      by (simp add: h_def x_def)
    moreover have "\<forall>c \<in> set (scalars us). valid_scalar c"
      using "3.IH"(1)[OF True lv wf] "3.prems"(2) by simp
    ultimately show ?thesis using True lv by simp
  next
    case False
    then have nl: "\<not> is_low u" and wf: "well_formed16 (v # us)" using "3.prems"(1) by simp_all
    have "valid_scalar u"
      using False nl "3.prems"(2) by (auto simp: valid_scalar_def is_high_def is_low_def)
    moreover have "\<forall>c \<in> set (scalars (v # us)). valid_scalar c"
      using "3.IH"(4)[OF False nl wf] "3.prems"(2) by simp
    ultimately show ?thesis using False nl by simp
  qed
qed

lemma pair_div: "x < 0x400 \<Longrightarrow> (h * 0x400 + x) div 0x400 = h \<and> (h * 0x400 + x) mod 0x400 = x"
  for x :: nat
  by simp

lemma utf16_scalars:
  "well_formed16 us \<Longrightarrow> \<forall>u \<in> set us. u < 0x10000 \<Longrightarrow> concat (map utf16_cp (scalars us)) = us"
proof (induction us rule: scalars.induct)
  case 1 then show ?case by simp
next
  case (2 u) then show ?case by (simp add: utf16_cp_def is_high_def is_low_def)
next
  case (3 u v us)
  show ?case
  proof (cases "is_high u")
    case True
    then have lv: "is_low v" and wf: "well_formed16 us" using "3.prems"(1) by simp_all
    define h where "h = u - 0xD800"
    define x where "x = v - 0xDC00"
    have hx: "x < 0x400" "0xD800 + h = u" "0xDC00 + x = v"
      using True lv unfolding h_def x_def is_high_def is_low_def by linarith+
    have "utf16_cp (0x10000 + h * 0x400 + x) = [u, v]"
      using pair_div[of x h] hx by (simp add: utf16_cp_def)
    then show ?thesis
      using True lv "3.IH"(1)[OF True lv wf] "3.prems"(2) by (simp add: h_def x_def)
  next
    case False
    then have nl: "\<not> is_low u" and wf: "well_formed16 (v # us)" using "3.prems"(1) by simp_all
    have "utf16_cp u = [u]" using "3.prems"(2) by (simp add: utf16_cp_def)
    then show ?thesis
      using False nl "3.IH"(4)[OF False nl wf] "3.prems"(2) by simp
  qed
qed

lemma scalars_no_bom: "(case us of [] \<Rightarrow> True | u # _ \<Rightarrow> u \<noteq> 0xFEFF) \<Longrightarrow>
   strip_bom (scalars us) = scalars us"
proof (cases us)
  case Nil then show ?thesis by (simp add: strip_bom_def)
next
  case (Cons u vs)
  assume "case us of [] \<Rightarrow> True | u # _ \<Rightarrow> u \<noteq> 0xFEFF"
  then have u: "u \<noteq> 0xFEFF" using Cons by simp
  show ?thesis
  proof (cases vs)
    case Nil
    then show ?thesis using Cons u by (simp add: strip_bom_def)
  next
    case (Cons v ws)
    then show ?thesis using \<open>us = u # vs\<close> u by (simp add: strip_bom_def)
  qed
qed

lemma unat_of_nat_bytes:
  "\<forall>b \<in> set bs. b < 256 \<Longrightarrow> map unat (map of_nat bs :: 8 word list) = bs"
  by (induction bs) (simp_all add: unat_of_nat)

lemma of_nat_unat_units: "map of_nat (map unat (t :: 16 word list)) = t"
  by (induction t) simp_all

lemma unat_unit_bound: "\<forall>u \<in> set (map unat (t :: 16 word list)). u < 0x10000"
proof -
  have "unat w < 2 ^ LENGTH(16)" for w :: "16 word" by (rule unsigned_less)
  then show ?thesis by simp
qed

lemma utf8_roundtrip:
  assumes "well_formed_text t" "\<not> starts_with_bom t"
  shows "utf8_decode (utf8_encode t) = t"
proof -
  let ?us = "map unat t"
  have wf: "well_formed16 ?us" using assms(1) by (simp add: well_formed_text_def)
  have bnd: "\<forall>u \<in> set ?us. u < 0x10000" by (rule unat_unit_bound)
  have val: "\<forall>c \<in> set (scalars ?us). valid_scalar c" using wf bnd by (rule scalars_valid)
  then have "\<forall>b \<in> set (concat (map utf8_cp (scalars ?us))). b < 256"
    using utf8_cp_bytes by auto
  then have "map unat (utf8_encode t) = concat (map utf8_cp (scalars ?us))"
    unfolding utf8_encode_def by (rule unat_of_nat_bytes)
  then have d: "utf8_dec 0 0 0 0x80 0xBF (map unat (utf8_encode t)) = scalars ?us"
    using dec_all[OF val] by simp
  have "case ?us of [] \<Rightarrow> True | u # _ \<Rightarrow> u \<noteq> 0xFEFF"
    using assms(2) by (cases t) (auto simp: starts_with_bom_def word_unat_eq_iff)
  then have "strip_bom (scalars ?us) = scalars ?us" by (rule scalars_no_bom)
  then have "utf8_decode (utf8_encode t) = map of_nat (concat (map utf16_cp (scalars ?us)))"
    using d by (simp add: utf8_decode_def)
  also have "\<dots> = map of_nat ?us" using utf16_scalars[OF wf bnd] by simp
  also have "\<dots> = t" by (rule of_nat_unat_units)
  finally show ?thesis .
qed

section \<open>Properties of encryption and decryption\<close>

lemma length_tag_of: "length (tag_of key n) = 16"
  by (simp add: tag_of_def)

lemma toy_correct: "aead_correct toy_crypto"
  by (simp add: aead_correct_def toy_crypto_def length_tag_of)

lemma uint_bytes: "map (of_int \<circ> uint) (bs :: 8 word list) = bs"
  by (induction bs) simp_all

lemma encrypt_decrypt_codec:
  assumes "aead_correct C" "length rnd = 12"
  shows "decryptMessage C c (Some (encryptMessage C rnd c t)) = Inr (utf8_decode (utf8_encode t))"
  using assms
  by (simp add: decryptMessage_def decrypt_try_def encryptMessage_def Let_def uint_bytes
      aead_correct_def)

text \<open>
  Claim C4, as amended. For every conversation id and every text in which each surrogate
  is half of a pair and which does not begin with U+FEFF, decrypting what
  \<^verbatim>\<open>encryptMessage\<close> produced (under any 12-byte nonce, with an AES-GCM that decrypts
  what it encrypted) returns the text.
\<close>

theorem encrypt_roundtrip:
  assumes "aead_correct C" "length rnd = 12" "well_formed_text t" "\<not> starts_with_bom t"
  shows "decryptMessage C c (Some (encryptMessage C rnd c t)) = Inr t"
  using assms by (simp add: encrypt_decrypt_codec utf8_roundtrip)


lemma codec_lone: "utf8_decode (utf8_encode [0xD800]) = [0xFFFD]"
  by (simp add: utf8_decode_def utf8_encode_def is_high_def utf8_cp_def strip_bom_def utf16_cp_def)

lemma codec_bom: "utf8_decode (utf8_encode [0xFEFF, 0x68]) = [0x68]"
  by (simp add: utf8_decode_def utf8_encode_def is_high_def is_low_def utf8_cp_def strip_bom_def utf16_cp_def)

lemma cex1: "decryptMessage toy_crypto ''conv-u-1'' (Some (encryptMessage toy_crypto rnd12 ''conv-u-1'' [0xD800])) = Inr [0xFFFD]"
  using encrypt_decrypt_codec[OF toy_correct, of rnd12 "''conv-u-1''" "[0xD800]"] codec_lone
  by (simp add: rnd12_def)

section \<open>Loading, saving and pagination\<close>

lemma map_filter_Some: "List.map_filter id (map Some xs) = xs"
  by (induction xs) (simp_all add: List.map_filter_simps)

lemma msgs_of_with_msgs: "msgs_of (with_msgs d ms) = ms"
  by (simp add: msgs_of_def with_msgs_def map_filter_Some)

lemma compact_twice: "compact (map Some (compact xs)) = compact xs"
  by (rule compact_fixed) (rule compacted_compact)


lemma compacted_Nil: "compacted []"
  by (simp add: compacted_def)


lemma loaded_compacted: "compacted (msgs_of (fst (loadData raw)))"
  by (auto simp: loadData_def Let_def msgs_of_def map_filter_Some compacted_compact compacted_Nil
      List.map_filter_simps split: option.splits)


lemma msgs_of_clean: "msgs_of (clean d) = compact (case messages d of Some xs \<Rightarrow> xs | None \<Rightarrow> [])"
  by (simp add: clean_def msgs_of_def map_filter_Some)

lemma load_after_save: "msgs_of (fst (loadData (saveData (with_msgs d ms)))) = compact (map Some ms)"
  by (simp add: saveData_def loadData_def clean_def with_msgs_def msgs_of_def map_filter_Some
      compact_twice Let_def)

lemma compacted_sorted: "compacted xs \<Longrightarrow> sorted (map created xs)"
  by (simp add: compacted_def)

lemma sorted_map_filter: "sorted (map f xs) \<Longrightarrow> sorted (map f (filter P xs))"
  by (induction xs) auto

lemma sorted_map_drop: "sorted (map f xs) \<Longrightarrow> sorted (map f (drop n xs))"
  by (simp add: drop_map[symmetric])

lemma slice_tail:
  assumes "0 \<le> n"
  shows "slice (max 0 (int (length xs) - n)) (int (length xs)) xs = drop (length xs - nat n) xs"
proof (cases "n \<le> int (length xs)")
  case True
  then have "nat (int (length xs) - n) = length xs - nat n" using assms by simp
  then show ?thesis using True assms by (simp add: slice_def Let_def max_def min_def)
next
  case False
  then have "length xs - nat n = 0" by simp
  then show ?thesis using False by (simp add: slice_def Let_def max_def min_def)
qed

text \<open>
  Claim C7. With a conversation open and a page index \<open>k \<ge> 0\<close>, the total returned is the
  number \<open>N\<close> of messages of the conversation that are not tombstoned, the slice has
  \<open>min (PAGE_SIZE * (k + 1)) N\<close> elements, and it is the tail of that length of those
  messages, which are sorted by \<^verbatim>\<open>createdAt\<close>.
\<close>

theorem pagination_bound:
  assumes "\<not> no_peer st" "0 \<le> pageIndex st"
  shows "let all = filter (in_conv (getConversationId (peer_str st))) (msgs_of (fst (loadData raw)));
             n = nat (PAGE_SIZE * (pageIndex st + 1));
             (sl, total) = getVisibleMessages st raw
         in total = int (length all) \<and> length sl = min n (length all)
            \<and> sl = drop (length all - n) all \<and> sorted (map created all)"
proof -
  let ?all = "filter (in_conv (getConversationId (peer_str st))) (msgs_of (fst (loadData raw)))"
  let ?n = "PAGE_SIZE * (pageIndex st + 1)"
  have n: "0 \<le> ?n" using assms(2) by (simp add: PAGE_SIZE_def)
  have g: "getVisibleMessages st raw = (drop (length ?all - nat ?n) ?all, int (length ?all))"
    using assms(1) slice_tail[OF n, of ?all] by (simp add: getVisibleMessages_def Let_def)
  have s: "sorted (map created ?all)"
    by (rule sorted_map_filter) (rule compacted_sorted[OF loaded_compacted])
  have l: "length (drop (length ?all - nat ?n) ?all) = min (nat ?n) (length ?all)" by simp
  show ?thesis using g s l by (simp add: Let_def)
qed

section \<open>Status transitions\<close>


lemma find_has_id_D: "find (has_id i) xs = Some y \<Longrightarrow> y \<in> set xs \<and> has_id i y"
  by (auto simp: find_Some_iff)


lemma stored_save: "stored (saveData (with_msgs d ms)) = compact (map Some ms)"
  by (simp add: stored_def load_after_save)







lemma split_load: "loadData raw = (fst (loadData raw), snd (loadData raw))"
  by simp








lemma status_in_present: "status_in raw i = Some s \<Longrightarrow> \<exists>x \<in> set (stored raw). has_id i x"
  by (auto simp: status_in_def dest: find_has_id_D)



section \<open>Delete and undo\<close>





lemma modify_first_none: "find P xs = None \<Longrightarrow> modify_first P f xs = xs"
  by (induction xs) (auto split: if_splits)

lemma fingerprint_deleted [simp]: "fingerprint (m\<lparr>deleted := v\<rparr>) = fingerprint m"
  by (simp add: fingerprint_def bucket_def created_def ivStr_def dataStr_def)

lemma created_deleted [simp]: "created (m\<lparr>deleted := v\<rparr>) = created m"
  by (simp add: created_def)

lemma truthy_deleted [simp]: "truthy_id (m\<lparr>deleted := v\<rparr>) = truthy_id m"
  by (simp add: truthy_id_def)


lemma stored_compacted: "compacted (stored raw)"
  by (simp add: stored_def loaded_compacted)











section \<open>Duplicate submits\<close>

lemma send_repeated:
  "repeated (lastSend (ui w)) (getConversationId (peer_str (ui w))) text now \<Longrightarrow>
   sendMessage C e now text w = w"
  by (simp add: sendMessage_def sendMessage_begin_def Let_def)

lemma send_while_sending: "sending (ui w) \<Longrightarrow> sendMessage C e now text w = w"
  by (simp add: sendMessage_def sendMessage_begin_def Let_def)

lemma begin_accepted:
  assumes "\<not> no_peer (ui w)" "\<not> sending (ui w)"
    and "\<not> repeated (lastSend (ui w)) (getConversationId (peer_str (ui w))) text now"
  shows "sendMessage_begin now text w =
     (w\<lparr>ui := (ui w)\<lparr>lastSend := Some \<lparr>la_convId = getConversationId (peer_str (ui w)),
                                        la_text = text, la_ts = now\<rparr>, sending := True\<rparr>,
        store := snd (loadData (store w))\<rparr>, Some (flight now text w))"
  using assms by (simp add: sendMessage_begin_def Let_def case_prod_beta flight_def)

lemma simulateBot_ui:
  "peerId (ui (simulateBotResponse now t c p w)) = peerId (ui w)
   \<and> lastSend (ui (simulateBotResponse now t c p w)) = lastSend (ui w)
   \<and> store (simulateBotResponse now t c p w) = store w"
  by (simp add: simulateBotResponse_def Let_def setTimeout_def clearTimeout_def case_prod_beta
      split: option.splits)

lemma finish_ui:
  "peerId (ui (sendMessage_finish C e fl w)) = peerId (ui w)
   \<and> lastSend (ui (sendMessage_finish C e fl w)) = lastSend (ui w)
   \<and> store (sendMessage_finish C e fl w) =
       saveData (with_msgs (fl_data fl) (msgs_of (fl_data fl) @ [sent_msg C e fl]))"
  by (simp add: sendMessage_finish_def Let_def case_prod_beta simulateBot_ui setTimeout_def)

lemma compact_append_fresh:
  assumes "compacted xs" "fresh_msg m xs"
  shows "length (compact (map Some (xs @ [m]))) = length xs + 1"
    and "set (compact (map Some (xs @ [m]))) = insert m (set xs)"
proof -
  have t: "list_all truthy_id (xs @ [m])" and i: "distinct (map msg_id (xs @ [m]))"
    and f: "distinct (map fingerprint (xs @ [m]))"
    using assms by (auto simp: compacted_def fresh_msg_def)
  have "idMerge (map Some (xs @ [m])) = xs @ [m]" using t i by (rule idMerge_fixed)
  moreover have "fpMerge (xs @ [m]) = xs @ [m]" using f by (rule fpMerge_fixed)
  ultimately have c: "compact (map Some (xs @ [m])) = sort_key created (xs @ [m])"
    by (simp add: compact_def)
  show "length (compact (map Some (xs @ [m]))) = length xs + 1" unfolding c by simp
  show "set (compact (map Some (xs @ [m]))) = insert m (set xs)" unfolding c by simp
qed

lemma finish_sending: "sending (ui (sendMessage_finish C e fl w)) = False"
  by (simp add: sendMessage_finish_def Let_def case_prod_beta)

lemma send_accepted:
  assumes "\<not> no_peer (ui w)" "\<not> sending (ui w)"
    and "\<not> repeated (lastSend (ui w)) (getConversationId (peer_str (ui w))) text now"
  shows "store (sendMessage C e now text w) =
           saveData (with_msgs (fst (loadData (store w)))
             (stored (store w) @ [sent_msg C e (flight now text w)]))"
    and "peerId (ui (sendMessage C e now text w)) = peerId (ui w)"
    and "sending (ui (sendMessage C e now text w)) = False"
    and "lastSend (ui (sendMessage C e now text w)) =
           Some \<lparr>la_convId = getConversationId (peer_str (ui w)), la_text = text, la_ts = now\<rparr>"
proof -
  define w0 where "w0 = fst (sendMessage_begin now text w)"
  have b: "sendMessage_begin now text w = (w0, Some (flight now text w))"
    using begin_accepted[OF assms] by (simp add: w0_def)
  have w0: "peerId (ui w0) = peerId (ui w)"
    "lastSend (ui w0) = Some \<lparr>la_convId = getConversationId (peer_str (ui w)), la_text = text, la_ts = now\<rparr>"
    using begin_accepted[OF assms] by (simp_all add: w0_def)
  have w1: "sendMessage C e now text w = sendMessage_finish C e (flight now text w) w0"
    using b by (simp add: sendMessage_def)
  show "store (sendMessage C e now text w) =
           saveData (with_msgs (fst (loadData (store w)))
             (stored (store w) @ [sent_msg C e (flight now text w)]))"
    using finish_ui[of C e "flight now text w" w0] by (simp add: w1) (simp add: flight_def stored_def)
  show "peerId (ui (sendMessage C e now text w)) = peerId (ui w)"
    using finish_ui[of C e "flight now text w" w0] w0(1) by (simp add: w1)
  show "sending (ui (sendMessage C e now text w)) = False"
    by (simp add: w1 finish_sending)
  show "lastSend (ui (sendMessage C e now text w)) =
           Some \<lparr>la_convId = getConversationId (peer_str (ui w)), la_text = text, la_ts = now\<rparr>"
    using finish_ui[of C e "flight now text w" w0] w0(2) by (simp add: w1)
qed

lemma slot_of_save: "slot_msgs (saveData (with_msgs d ms)) = map Some (compact (map Some ms))"
  by (simp add: slot_msgs_def saveData_def clean_def with_msgs_def)

lemma sent_msg_fields:
  "msg_id (sent_msg C e (flight now text w)) = Some (e_uuid e)"
  "convId (sent_msg C e (flight now text w)) = getConversationId (peer_str (ui w))"
  "msg_from (sent_msg C e (flight now text w)) = ''me''"
  "createdAt (sent_msg C e (flight now text w)) = Some now"
  "status (sent_msg C e (flight now text w)) = Sent"
  "cipher (sent_msg C e (flight now text w)) =
     Some (encryptMessage C (e_rnd e) (getConversationId (peer_str (ui w))) text)"
  by (simp_all add: sent_msg_def flight_def)

text \<open>
  Claim C6, as amended. \<^verbatim>\<open>state.lastSend\<close> is one record for all conversations. After a
  send that was accepted, a second send of the same text for the same conversation less
  than 600 ms later, with no other accepted send in between, changes nothing, neither the
  store nor the state; the same holds while the first send is still waiting for its
  encryption. The first send stores the compaction of the old messages with one new
  message, and the slot holds exactly the stored messages. The new message carries the
  given id, the open conversation, the sender \<open>me\<close>, the status \<open>Sent\<close>, the time of the
  send and the encryption of the text, which decrypts to the text when the cipher is
  correct, the nonce has 12 bytes and the text is well-formed without a leading U+FEFF.
  When the id is not empty and neither the id nor the fingerprint is stored yet, the store
  holds exactly the old messages and the new one, which was not there before.
\<close>

theorem duplicate_send_dropped:
  assumes "\<not> no_peer (ui w)" "\<not> sending (ui w)"
    and "\<not> repeated (lastSend (ui w)) (getConversationId (peer_str (ui w))) text now1"
    and "now2 - now1 < 600"
  shows "let w1 = sendMessage C e1 now1 text w;
             pending = fst (sendMessage_begin now1 text w);
             c = getConversationId (peer_str (ui w));
             m = sent_msg C e1 (flight now1 text w)
         in sendMessage C e2 now2 text w1 = w1
            \<and> sendMessage C e2 now2 text pending = pending
            \<and> stored (store w1) = compact (map Some (stored (store w) @ [m]))
            \<and> slot_msgs (store w1) = map Some (stored (store w1))
            \<and> msg_id m = Some (e_uuid e1) \<and> convId m = c \<and> msg_from m = ''me''
            \<and> status m = Sent \<and> createdAt m = Some now1
            \<and> cipher m = Some (encryptMessage C (e_rnd e1) c text)
            \<and> (aead_correct C \<and> length (e_rnd e1) = 12 \<and> well_formed_text text
                 \<and> \<not> starts_with_bom text \<longrightarrow>
                decryptMessage C c (cipher m) = Inr text)
            \<and> (e_uuid e1 \<noteq> [] \<and> Some (e_uuid e1) \<notin> msg_id ` set (stored (store w))
                 \<and> fingerprint m \<notin> fingerprint ` set (stored (store w)) \<longrightarrow>
                length (stored (store w1)) = length (stored (store w)) + 1
                \<and> set (stored (store w1)) = insert m (set (stored (store w)))
                \<and> m \<notin> set (stored (store w)))"
proof -
  let ?c = "getConversationId (peer_str (ui w))"
  define w0 where "w0 = fst (sendMessage_begin now1 text w)"
  let ?w1 = "sendMessage C e1 now1 text w"
  let ?m = "sent_msg C e1 (flight now1 text w)"
  have w0s: "sending (ui w0)"
    using begin_accepted[OF assms(1-3)] by (simp add: w0_def)
  have acc: "store ?w1 = saveData (with_msgs (fst (loadData (store w))) (stored (store w) @ [?m]))"
    "peerId (ui ?w1) = peerId (ui w)"
    "lastSend (ui ?w1) = Some \<lparr>la_convId = ?c, la_text = text, la_ts = now1\<rparr>"
    using send_accepted[OF assms(1-3), of C e1] by simp_all
  have p1: "peer_str (ui ?w1) = peer_str (ui w)" using acc(2) by (simp add: peer_str_def)
  have r: "repeated (lastSend (ui ?w1)) (getConversationId (peer_str (ui ?w1))) text now2"
    using assms(4) by (simp add: acc(3) p1 repeated_def)
  have d1: "sendMessage C e2 now2 text ?w1 = ?w1" using r by (rule send_repeated)
  have d2: "sendMessage C e2 now2 text w0 = w0" using w0s by (rule send_while_sending)
  have s: "stored (store ?w1) = compact (map Some (stored (store w) @ [?m]))"
    by (simp add: acc(1) stored_save)
  have sl: "slot_msgs (store ?w1) = map Some (stored (store ?w1))"
    by (simp add: s) (simp add: acc(1) slot_of_save)
  have n: "length (stored (store ?w1)) = length (stored (store w)) + 1
           \<and> set (stored (store ?w1)) = insert ?m (set (stored (store w)))
           \<and> ?m \<notin> set (stored (store w))"
    if h: "e_uuid e1 \<noteq> []" "Some (e_uuid e1) \<notin> msg_id ` set (stored (store w))"
      "fingerprint ?m \<notin> fingerprint ` set (stored (store w))"
  proof -
    have fr: "fresh_msg ?m (stored (store w))"
      using h by (simp add: fresh_msg_def truthy_id_def sent_msg_fields)
    have "msg_id ?m \<notin> msg_id ` set (stored (store w))"
      using h(2) by (simp add: sent_msg_fields)
    then have "?m \<notin> set (stored (store w))" by blast
    then show ?thesis
      unfolding s using compact_append_fresh[OF stored_compacted fr] by simp
  qed
  have dec: "decryptMessage C ?c (cipher ?m) = Inr text"
    if "aead_correct C" "length (e_rnd e1) = 12" "well_formed_text text" "\<not> starts_with_bom text"
    using that by (simp add: sent_msg_fields encrypt_decrypt_codec utf8_roundtrip)
  show ?thesis
    using d1 d2 s sl n dec by (simp add: Let_def w0_def[symmetric] sent_msg_fields)
qed

section \<open>Reply timers\<close>

lemma tinv_add_other:
  assumes "tinv bt ts nx tt" "job_conv j = None"
  shows "tinv bt (ts @ [(nx, j)]) (Suc nx) tt"
  using assms unfolding tinv_def by (auto simp: less_Suc_eq)

lemma tinv_add_typing:
  assumes "tinv bt ts nx tt"
  shows "tinv bt (ts @ [(nx, TypingJob)]) (Suc nx) (Some nx)"
  using assms unfolding tinv_def by (auto simp: less_Suc_eq job_conv_def)

lemma tinv_remove_nonbot:
  assumes "tinv bt ts nx tt" "\<forall>j. (tid, j) \<in> set ts \<longrightarrow> job_conv j = None"
  shows "tinv bt (filter (\<lambda>(t, j). t \<noteq> tid) ts) nx tt"
  using assms unfolding tinv_def by (auto simp: distinct_map_filter)

lemma set_delete: "set (AList.delete c bt) = {(k, v). (k, v) \<in> set bt \<and> k \<noteq> c}"
  by (auto simp: AList.delete_eq)

lemma tinv_remove_bot:
  assumes "tinv bt ts nx tt" "(tid, j) \<in> set ts" "job_conv j = Some c"
  shows "tinv (AList.delete c bt) (filter (\<lambda>(t, j). t \<noteq> tid) ts) nx tt"
proof -
  have d: "distinct (map fst ts)" "distinct (map fst bt)" using assms(1) by (simp_all add: tinv_def)
  have only: "(t, j') \<in> set ts \<Longrightarrow> job_conv j' = Some c \<Longrightarrow> t = tid" for t j'
  proof -
    assume a: "(t, j') \<in> set ts" "job_conv j' = Some c"
    then have "(c, t) \<in> set bt" "(c, tid) \<in> set bt"
      using assms unfolding tinv_def by blast+
    then show "t = tid" using d(2) by (meson eq_key_imp_eq_value)
  qed
  have same: "(tid, j') \<in> set ts \<Longrightarrow> j' = j" for j'
    using assms(2) d(1) by (meson eq_key_imp_eq_value)
  have iff: "(c', t) \<in> set (AList.delete c bt) \<longleftrightarrow>
      (\<exists>j'. (t, j') \<in> set (filter (\<lambda>(t, j). t \<noteq> tid) ts) \<and> job_conv j' = Some c')" for c' t
  proof
    assume "(c', t) \<in> set (AList.delete c bt)"
    then have m: "(c', t) \<in> set bt" "c' \<noteq> c" by (auto simp: set_delete)
    then obtain j' where j': "(t, j') \<in> set ts" "job_conv j' = Some c'"
      using assms(1) unfolding tinv_def by blast
    then have "t \<noteq> tid" using same assms(3) m(2) by auto
    then show "\<exists>j'. (t, j') \<in> set (filter (\<lambda>(t, j). t \<noteq> tid) ts) \<and> job_conv j' = Some c'"
      using j' by auto
  next
    assume "\<exists>j'. (t, j') \<in> set (filter (\<lambda>(t, j). t \<noteq> tid) ts) \<and> job_conv j' = Some c'"
    then obtain j' where j': "(t, j') \<in> set ts" "t \<noteq> tid" "job_conv j' = Some c'" by auto
    then have "c' \<noteq> c" using only by blast
    moreover have "(c', t) \<in> set bt" using j' assms(1) unfolding tinv_def by blast
    ultimately show "(c', t) \<in> set (AList.delete c bt)" by (simp add: set_delete)
  qed
  have rest: "0 < nx" "\<forall>(t, j) \<in> set (filter (\<lambda>(t, j). t \<noteq> tid) ts). 0 < t \<and> t < nx"
    "distinct (map fst (filter (\<lambda>(t, j). t \<noteq> tid) ts))" "distinct (map fst (AList.delete c bt))"
    "\<forall>t. tt = Some t \<longrightarrow> t < nx \<and> (\<forall>j. (t, j) \<in> set (filter (\<lambda>(t, j). t \<noteq> tid) ts) \<longrightarrow> j = TypingJob)"
    using assms(1) unfolding tinv_def by (auto simp: distinct_map_filter AList.distinct_delete)
  show ?thesis unfolding tinv_def using rest iff by blast
qed

lemma tinv_add_bot:
  assumes "tinv bt ts nx tt" "c \<notin> fst ` set bt"
  shows "tinv (AList.update c nx bt) (ts @ [(nx, BotJob u c p)]) (Suc nx) tt"
proof -
  have upd: "AList.update c nx bt = bt @ [(c, nx)]" using assms(2) by (rule update_fresh)
  have fresh: "nx \<notin> fst ` set ts" using assms(1) unfolding tinv_def by fastforce
  have iff: "(c', t) \<in> set (bt @ [(c, nx)]) \<longleftrightarrow>
      (\<exists>j. (t, j) \<in> set (ts @ [(nx, BotJob u c p)]) \<and> job_conv j = Some c')" for c' t
    using assms(1) unfolding tinv_def by (auto simp: job_conv_def)
  have rest: "\<forall>(t, j) \<in> set (ts @ [(nx, BotJob u c p)]). 0 < t \<and> t < Suc nx"
    "distinct (map fst (ts @ [(nx, BotJob u c p)]))" "distinct (map fst (bt @ [(c, nx)]))"
    "\<forall>t. tt = Some t \<longrightarrow> t < Suc nx \<and> (\<forall>j. (t, j) \<in> set (ts @ [(nx, BotJob u c p)]) \<longrightarrow> j = TypingJob)"
    using assms fresh unfolding tinv_def by (auto simp: less_Suc_eq)
  show ?thesis unfolding tinv_def upd using rest iff by blast
qed

lemma simulateBot_inv:
  assumes "timers_inv w"
  shows "timers_inv (simulateBotResponse now u c p w)"
proof (cases "repeated (lastBot (ui w)) c u now")
  case True
  then show ?thesis using assms by (simp add: simulateBotResponse_def)
next
  case False
  let ?bt = "botTimers w" and ?ts = "timers w" and ?nx = "nextTimer w"
  let ?tt = "typingTimer (ui w)"
  have inv: "tinv ?bt ?ts ?nx ?tt" using assms by (simp add: timers_inv_def)
  show ?thesis
  proof (cases "map_of ?bt c")
    case None
    then have "c \<notin> fst ` set ?bt" by (simp add: map_of_eq_None_iff)
    then have "tinv (AList.update c ?nx ?bt) (?ts @ [(?nx, BotJob u c p)]) (Suc ?nx) ?tt"
      using inv by (intro tinv_add_bot)
    then show ?thesis
      using False None
      by (simp add: simulateBotResponse_def timers_inv_def Let_def setTimeout_def)
  next
    case (Some prev)
    then have m: "(c, prev) \<in> set ?bt" by (rule map_of_SomeD)
    then obtain j where j: "(prev, j) \<in> set ?ts" "job_conv j = Some c"
      using inv unfolding tinv_def by blast
    then have pos: "prev \<noteq> 0" using inv unfolding tinv_def by fastforce
    have i1: "tinv (AList.delete c ?bt) (filter (\<lambda>(t, j). t \<noteq> prev) ?ts) ?nx ?tt"
      using inv j by (rule tinv_remove_bot)
    have "c \<notin> fst ` set (AList.delete c ?bt)" by (rule AList.delete_notin_dom)
    then have "tinv (AList.update c ?nx (AList.delete c ?bt))
        (filter (\<lambda>(t, j). t \<noteq> prev) ?ts @ [(?nx, BotJob u c p)]) (Suc ?nx) ?tt"
      using i1 by (intro tinv_add_bot)
    then show ?thesis
      using False Some pos
      by (simp add: simulateBotResponse_def timers_inv_def Let_def setTimeout_def clearTimeout_def)
  qed
qed

lemma markAllSeen_frame:
  "timers_inv (w\<lparr>store := s\<rparr>) = timers_inv w"
  by (simp add: timers_inv_def)

lemma bot_callback_inv:
  assumes "tinv (botTimers w) (filter (\<lambda>(t, j). t \<noteq> tid) (timers w)) (nextTimer w) (typingTimer (ui w))"
  shows "timers_inv (bot_callback C e c p (w\<lparr>timers := filter (\<lambda>(t, j). t \<noteq> tid) (timers w)\<rparr>))
         \<longleftrightarrow> tinv (AList.delete c (botTimers w)) (filter (\<lambda>(t, j). t \<noteq> tid) (timers w))
               (nextTimer w) (typingTimer (ui w))"
  by (simp add: bot_callback_def timers_inv_def Let_def case_prod_beta)

lemma fire_inv:
  assumes "timers_inv w"
  shows "timers_inv (fire C e tid w)"
proof (cases "map_of (timers w) tid")
  case None
  then show ?thesis using assms by (simp add: fire_def)
next
  case (Some job)
  let ?bt = "botTimers w" and ?ts = "timers w" and ?nx = "nextTimer w"
  let ?tt = "typingTimer (ui w)"
  have inv: "tinv ?bt ?ts ?nx ?tt" using assms by (simp add: timers_inv_def)
  have mem: "(tid, job) \<in> set ?ts" using Some by (rule map_of_SomeD)
  have same: "(tid, j') \<in> set ?ts \<Longrightarrow> j' = job" for j'
    using mem inv unfolding tinv_def by (meson eq_key_imp_eq_value)
  show ?thesis
  proof (cases "job_conv job")
    case None
    then have "\<forall>j. (tid, j) \<in> set ?ts \<longrightarrow> job_conv j = None" using same by blast
    then have "tinv ?bt (filter (\<lambda>(t, j). t \<noteq> tid) ?ts) ?nx ?tt"
      using inv by (intro tinv_remove_nonbot)
    then show ?thesis
      using Some None
      by (cases job) (simp_all add: fire_def timers_inv_def clearTimeout_def job_conv_def)
  next
    case (Some c)
    then obtain u p where job: "job = BotJob u c p"
      by (cases job) (simp_all add: job_conv_def)
    have "tinv (AList.delete c ?bt) (filter (\<lambda>(t, j). t \<noteq> tid) ?ts) ?nx ?tt"
      using inv mem Some by (rule tinv_remove_bot)
    then show ?thesis
      using \<open>map_of (timers w) tid = Some job\<close> job
      by (simp add: fire_def clearTimeout_def bot_callback_def timers_inv_def Let_def case_prod_beta)
  qed
qed

lemma on_input_inv:
  assumes "timers_inv w"
  shows "timers_inv (on_input w)"
proof -
  let ?bt = "botTimers w" and ?ts = "timers w" and ?nx = "nextTimer w"
  let ?tt = "typingTimer (ui w)"
  have inv: "tinv ?bt ?ts ?nx ?tt" using assms by (simp add: timers_inv_def)
  show ?thesis
  proof (cases ?tt)
    case None
    have "tinv ?bt (?ts @ [(?nx, TypingJob)]) (Suc ?nx) (Some ?nx)"
      using inv by (rule tinv_add_typing)
    then show ?thesis using None
      by (simp add: on_input_def timers_inv_def Let_def setTimeout_def)
  next
    case (Some t)
    then have "\<forall>j. (t, j) \<in> set ?ts \<longrightarrow> job_conv j = None"
      using inv unfolding tinv_def by (auto simp: job_conv_def)
    then have "tinv ?bt (filter (\<lambda>(t', j). t' \<noteq> t) ?ts) ?nx ?tt"
      using inv by (intro tinv_remove_nonbot)
    then have "tinv ?bt (filter (\<lambda>(t', j). t' \<noteq> t) ?ts @ [(?nx, TypingJob)]) (Suc ?nx) (Some ?nx)"
      by (rule tinv_add_typing)
    then show ?thesis using Some
      by (simp add: on_input_def timers_inv_def Let_def setTimeout_def clearTimeout_def)
  qed
qed

lemma begin_inv: "timers_inv w \<Longrightarrow> timers_inv (fst (sendMessage_begin now text w))"
  by (simp add: sendMessage_begin_def timers_inv_def Let_def case_prod_beta)

lemma finish_inv:
  assumes "timers_inv w"
  shows "timers_inv (sendMessage_finish C e fl w)"
proof -
  let ?w1 = "w\<lparr>store := saveData (with_msgs (fl_data fl) (msgs_of (fl_data fl) @ [sent_msg C e fl]))\<rparr>"
  let ?w2 = "snd (setTimeout (StatusJob (e_uuid e) Delivered) ?w1)"
  have "tinv (botTimers w) (timers w @ [(nextTimer w, StatusJob (e_uuid e) Delivered)])
          (Suc (nextTimer w)) (typingTimer (ui w))"
    using assms unfolding timers_inv_def by (intro tinv_add_other) (simp_all add: job_conv_def)
  then have "timers_inv ?w2" by (simp add: timers_inv_def setTimeout_def)
  then have "timers_inv (simulateBotResponse (e_now e) (fl_text fl) (fl_convId fl) (fl_peer fl) ?w2)"
    by (rule simulateBot_inv)
  then show ?thesis
    by (simp add: sendMessage_finish_def Let_def case_prod_beta timers_inv_def)
qed

lemma init_inv: "timers_inv init_world"
  by (simp add: timers_inv_def tinv_def init_world_def)

lemma reachable_inv: "reachable C w \<Longrightarrow> timers_inv w"
proof (induction rule: reachable.induct)
  case r_init then show ?case by (rule init_inv)
next
  case (r_begin w now t) then show ?case by (simp add: begin_inv)
next
  case (r_finish w e fl) then show ?case by (simp add: finish_inv)
next
  case (r_bot w now t c p) then show ?case by (simp add: simulateBot_inv)
next
  case (r_fire w e tid) then show ?case by (simp add: fire_inv)
next
  case (r_input w) then show ?case by (simp add: on_input_inv)
next
  case (r_other w s p k) then show ?case by (simp add: timers_inv_def)
qed

lemma length_le_one:
  assumes "distinct xs" "\<forall>x \<in> set xs. \<forall>y \<in> set xs. x = y"
  shows "length xs \<le> 1"
proof (rule ccontr)
  assume "\<not> length xs \<le> 1"
  then obtain x y zs where xs: "xs = x # y # zs"
    by (cases xs; cases "tl xs") auto
  have "x \<in> set xs" "y \<in> set xs" by (simp_all add: xs)
  then have "x = y" using assms(2) by blast
  then show False using assms(1) by (simp add: xs)
qed

lemma inv_single_flight:
  assumes "timers_inv w"
  shows "length (bot_timers_for c w) \<le> 1"
proof (rule length_le_one)
  have inv: "tinv (botTimers w) (timers w) (nextTimer w) (typingTimer (ui w))"
    using assms by (simp add: timers_inv_def)
  then have d: "distinct (map fst (timers w))" "distinct (map fst (botTimers w))"
    by (simp_all add: tinv_def)
  show "distinct (bot_timers_for c w)"
    using d(1) by (simp add: bot_timers_for_def distinct_map)
  show "\<forall>x \<in> set (bot_timers_for c w). \<forall>y \<in> set (bot_timers_for c w). x = y"
  proof (intro ballI)
    fix x y assume "x \<in> set (bot_timers_for c w)" "y \<in> set (bot_timers_for c w)"
    then obtain t1 j1 t2 j2 where xy: "x = (t1, j1)" "y = (t2, j2)"
      "(t1, j1) \<in> set (timers w)" "(t2, j2) \<in> set (timers w)"
      "job_conv j1 = Some c" "job_conv j2 = Some c"
      by (auto simp: bot_timers_for_def)
    then have "(c, t1) \<in> set (botTimers w)" "(c, t2) \<in> set (botTimers w)"
      using inv unfolding tinv_def by blast+
    then have "t1 = t2" using d(2) by (meson eq_key_imp_eq_value)
    then have "j1 = j2" using xy(3,4) d(1) by (meson eq_key_imp_eq_value)
    then show "x = y" using xy(1,2) \<open>t1 = t2\<close> by simp
  qed
qed

lemma simulateBot_effect:
  assumes "timers_inv w" "\<not> repeated (lastBot (ui w)) c u now"
  shows "timers (simulateBotResponse now u c p w) =
           filter (\<lambda>(t, j). Some t \<noteq> map_of (botTimers w) c) (timers w) @ [(nextTimer w, BotJob u c p)]"
    and "botTimers (simulateBotResponse now u c p w) =
           AList.update c (nextTimer w) (AList.delete c (botTimers w))"
proof -
  have inv: "tinv (botTimers w) (timers w) (nextTimer w) (typingTimer (ui w))"
    using assms(1) by (simp add: timers_inv_def)
  have pos: "prev \<noteq> 0" if "map_of (botTimers w) c = Some prev" for prev
  proof -
    have "(c, prev) \<in> set (botTimers w)" using that by (rule map_of_SomeD)
    then obtain j where "(prev, j) \<in> set (timers w)" using inv unfolding tinv_def by blast
    then show ?thesis using inv unfolding tinv_def by fastforce
  qed
  have none: "AList.delete c (botTimers w) = botTimers w" if "map_of (botTimers w) c = None"
    using that by (simp add: map_of_eq_None_iff)
  show "timers (simulateBotResponse now u c p w) =
           filter (\<lambda>(t, j). Some t \<noteq> map_of (botTimers w) c) (timers w) @ [(nextTimer w, BotJob u c p)]"
    using assms(2) pos
    by (cases "map_of (botTimers w) c")
       (simp_all add: simulateBotResponse_def Let_def setTimeout_def clearTimeout_def case_prod_beta)
  show "botTimers (simulateBotResponse now u c p w) =
           AList.update c (nextTimer w) (AList.delete c (botTimers w))"
    using assms(2) pos none
    by (cases "map_of (botTimers w) c")
       (simp_all add: simulateBotResponse_def Let_def setTimeout_def clearTimeout_def case_prod_beta)
qed

lemma singleton_of_short: "length xs \<le> 1 \<Longrightarrow> x \<in> set xs \<Longrightarrow> xs = [x]"
  by (cases xs) auto

text \<open>
  Claim C9. In every reachable state at most one reply timer is pending for a conversation.
  A call of \<^verbatim>\<open>simulateBotResponse\<close> that is not suppressed leaves exactly the new timer
  pending for its conversation, recorded in \<^verbatim>\<open>botTimers\<close>, and the timer recorded before
  is no longer in the timer table.
\<close>

theorem single_flight:
  assumes "reachable C w"
  shows "length (bot_timers_for c w) \<le> 1
     \<and> (\<not> repeated (lastBot (ui w)) c u now \<longrightarrow>
          bot_timers_for c (simulateBotResponse now u c p w) = [(nextTimer w, BotJob u c p)]
          \<and> map_of (botTimers (simulateBotResponse now u c p w)) c = Some (nextTimer w)
          \<and> (\<forall>prev. map_of (botTimers w) c = Some prev \<longrightarrow>
                 prev \<notin> fst ` set (timers (simulateBotResponse now u c p w))))"
proof -
  have inv: "timers_inv w" using assms by (rule reachable_inv)
  have one: "length (bot_timers_for c w) \<le> 1" using inv by (rule inv_single_flight)
  have eff: "bot_timers_for c (simulateBotResponse now u c p w) = [(nextTimer w, BotJob u c p)]
          \<and> map_of (botTimers (simulateBotResponse now u c p w)) c = Some (nextTimer w)
          \<and> (\<forall>prev. map_of (botTimers w) c = Some prev \<longrightarrow>
                 prev \<notin> fst ` set (timers (simulateBotResponse now u c p w)))"
    if nr: "\<not> repeated (lastBot (ui w)) c u now"
  proof -
    let ?w' = "simulateBotResponse now u c p w"
    have inv': "timers_inv ?w'" using inv by (rule simulateBot_inv)
    have t: "timers ?w' = filter (\<lambda>(t, j). Some t \<noteq> map_of (botTimers w) c) (timers w)
                @ [(nextTimer w, BotJob u c p)]"
      and b: "botTimers ?w' = AList.update c (nextTimer w) (AList.delete c (botTimers w))"
      using simulateBot_effect[OF inv nr] by simp_all
    have "(nextTimer w, BotJob u c p) \<in> set (bot_timers_for c ?w')"
      by (simp add: bot_timers_for_def t job_conv_def)
    then have a: "bot_timers_for c ?w' = [(nextTimer w, BotJob u c p)]"
      using inv_single_flight[OF inv'] by (intro singleton_of_short)
    have m: "map_of (botTimers ?w') c = Some (nextTimer w)"
      by (simp add: b AList.update_conv')
    have "prev \<notin> fst ` set (timers ?w')" if pr: "map_of (botTimers w) c = Some prev" for prev
    proof -
      have "(c, prev) \<in> set (botTimers w)" using pr by (rule map_of_SomeD)
      then obtain j where "(prev, j) \<in> set (timers w)"
        using inv unfolding timers_inv_def tinv_def by blast
      then have "prev < nextTimer w" using inv unfolding timers_inv_def tinv_def by fastforce
      then show ?thesis using pr by (auto simp: t)
    qed
    then show ?thesis using a m by blast
  qed
  show ?thesis using one eff by blast
qed

section \<open>Concrete runs\<close>




lemma compact_append_in_order:
  assumes "compacted xs" "fresh_msg m xs" "\<forall>x \<in> set xs. created x \<le> created m"
  shows "compact (map Some (xs @ [m])) = xs @ [m]"
proof -
  have t: "list_all truthy_id (xs @ [m])" and i: "distinct (map msg_id (xs @ [m]))"
    and f: "distinct (map fingerprint (xs @ [m]))"
    using assms(1,2) by (auto simp: compacted_def fresh_msg_def)
  have s: "sorted (map created (xs @ [m]))"
    using assms(1,3) by (auto simp: compacted_def sorted_append)
  have "compacted (xs @ [m])" using t i f s by (simp add: compacted_def)
  then show ?thesis by (rule compact_fixed)
qed





lemma send_appends:
  assumes "\<not> no_peer (ui w)" "\<not> sending (ui w)"
    and "\<not> repeated (lastSend (ui w)) (getConversationId (peer_str (ui w))) text now"
    and "fresh_msg (sent_msg C e (flight now text w)) (stored (store w))"
    and "\<forall>x \<in> set (stored (store w)). created x \<le> now"
  shows "stored (store (sendMessage C e now text w)) =
           stored (store w) @ [sent_msg C e (flight now text w)]"
proof -
  have "created (sent_msg C e (flight now text w)) = now"
    by (simp add: created_def sent_msg_fields)
  then have "compact (map Some (stored (store w) @ [sent_msg C e (flight now text w)])) =
             stored (store w) @ [sent_msg C e (flight now text w)]"
    using assms(4,5) stored_compacted by (intro compact_append_in_order) simp_all
  then show ?thesis
    by (simp only: send_accepted(1)[OF assms(1-3)] stored_save)
qed

lemma peer_switch:
  "peer_str (ui (switchConversation p w)) = p"
  "no_peer (ui (switchConversation p w)) = (p = [])"
  "sending (ui (switchConversation p w)) = sending (ui w)"
  "lastSend (ui (switchConversation p w)) = lastSend (ui w)"
  "store (switchConversation p w) = store w"
  by (simp_all add: switchConversation_def peer_str_def no_peer_def)

lemma sent_sample:
  "peer_str (ui w) = p \<Longrightarrow>
   sent_msg toy_crypto (ev\<lparr>e_uuid := i\<rparr>) (flight now t w) = sample_sent i p t now"
  by (simp add: sent_msg_def flight_def sample_sent_def ev_def getConversationId_def)

lemma w_open_ui:
  "peer_str (ui w_open) = ''u-1''" "\<not> no_peer (ui w_open)" "\<not> sending (ui w_open)"
  "lastSend (ui w_open) = None" "stored (store w_open) = []"
  by (simp_all add: w_open_def peer_switch init_world_def stored_def loadData_def msgs_of_def
      Let_def List.map_filter_simps)

lemma ev_id: "ev\<lparr>e_uuid := ''id-1''\<rparr> = ev"
  by (simp add: ev_def)

lemma w_s1_facts:
  "stored (store w_s1) = [sample_sent ''id-1'' ''u-1'' hello 1000]"
  "\<not> sending (ui w_s1)"
  "lastSend (ui w_s1) = Some \<lparr>la_convId = ''conv-u-1'', la_text = hello, la_ts = 1000\<rparr>"
proof -
  have nr: "\<not> repeated (lastSend (ui w_open)) (getConversationId (peer_str (ui w_open))) hello 1000"
    by (simp add: w_open_ui repeated_def)
  have m: "sent_msg toy_crypto ev (flight 1000 hello w_open) = sample_sent ''id-1'' ''u-1'' hello 1000"
    using sent_sample[OF w_open_ui(1), of "''id-1''" 1000 hello] by (simp add: ev_id)
  have fr: "fresh_msg (sent_msg toy_crypto ev (flight 1000 hello w_open)) (stored (store w_open))"
    by (simp add: m w_open_ui fresh_msg_def truthy_id_def sample_sent_def)
  show "stored (store w_s1) = [sample_sent ''id-1'' ''u-1'' hello 1000]"
    unfolding w_s1_def using send_appends[OF w_open_ui(2,3) nr fr] by (simp add: w_open_ui m)
  show "\<not> sending (ui w_s1)"
    unfolding w_s1_def using send_accepted(3)[OF w_open_ui(2,3) nr] by simp
  show "lastSend (ui w_s1) = Some \<lparr>la_convId = ''conv-u-1'', la_text = hello, la_ts = 1000\<rparr>"
    unfolding w_s1_def using send_accepted(4)[OF w_open_ui(2,3) nr]
    by (simp add: w_open_ui getConversationId_def)
qed

lemma fp_sample_conv:
  "p \<noteq> q \<Longrightarrow> length p = length q \<Longrightarrow>
   fingerprint (sample_sent i p t now) \<noteq> fingerprint (sample_sent j q u now')"
  by (simp add: fingerprint_def sample_sent_def)

lemma w_s2_facts:
  "stored (store w_s2) = [sample_sent ''id-1'' ''u-1'' hello 1000, sample_sent ''id-2'' ''u-2'' (js ''x'') 1100]"
  "\<not> sending (ui w_s2)"
  "lastSend (ui w_s2) = Some \<lparr>la_convId = ''conv-u-2'', la_text = js ''x'', la_ts = 1100\<rparr>"
proof -
  let ?w = "switchConversation ''u-2'' w_s1"
  have a: "\<not> no_peer (ui ?w)" "\<not> sending (ui ?w)"
    by (simp_all add: peer_switch w_s1_facts)
  have nr: "\<not> repeated (lastSend (ui ?w)) (getConversationId (peer_str (ui ?w))) (js ''x'') 1100"
    by (simp add: peer_switch w_s1_facts repeated_def getConversationId_def)
  have m: "sent_msg toy_crypto (ev\<lparr>e_uuid := ''id-2''\<rparr>) (flight 1100 (js ''x'') ?w) =
           sample_sent ''id-2'' ''u-2'' (js ''x'') 1100"
    by (rule sent_sample) (simp add: peer_switch)
  have fr: "fresh_msg (sent_msg toy_crypto (ev\<lparr>e_uuid := ''id-2''\<rparr>) (flight 1100 (js ''x'') ?w)) (stored (store ?w))"
    unfolding m using fp_sample_conv[of "''u-2''" "''u-1''" "''id-2''" "js ''x''" 1100 "''id-1''" hello 1000]
    by (simp add: peer_switch w_s1_facts fresh_msg_def) (simp add: truthy_id_def sample_sent_def)
  have b: "\<forall>x \<in> set (stored (store ?w)). created x \<le> 1100"
    by (simp add: peer_switch w_s1_facts created_def sample_sent_def)
  show "stored (store w_s2) = [sample_sent ''id-1'' ''u-1'' hello 1000, sample_sent ''id-2'' ''u-2'' (js ''x'') 1100]"
    unfolding w_s2_def using send_appends[OF a nr fr b] by (simp add: m peer_switch w_s1_facts)
  show "\<not> sending (ui w_s2)"
    unfolding w_s2_def using send_accepted(3)[OF a nr] by simp
  show "lastSend (ui w_s2) = Some \<lparr>la_convId = ''conv-u-2'', la_text = js ''x'', la_ts = 1100\<rparr>"
    unfolding w_s2_def using send_accepted(4)[OF a nr]
    by (simp add: peer_switch getConversationId_def)
qed

lemma fp_sample_bucket:
  "fingerprint (sample_sent ''id-3'' ''u-1'' hello 1200) \<noteq> fingerprint (sample_sent ''id-1'' ''u-1'' hello 1000)"
  by (simp add: fingerprint_def sample_sent_def bucket_def created_def show_int_def digit_char_def)

lemma w_s3_facts:
  "stored (store w_s3) = [sample_sent ''id-1'' ''u-1'' hello 1000, sample_sent ''id-2'' ''u-2'' (js ''x'') 1100,
                          sample_sent ''id-3'' ''u-1'' hello 1200]"
proof -
  let ?w = "switchConversation ''u-1'' w_s2"
  have a: "\<not> no_peer (ui ?w)" "\<not> sending (ui ?w)"
    by (simp_all add: peer_switch w_s2_facts)
  have nr: "\<not> repeated (lastSend (ui ?w)) (getConversationId (peer_str (ui ?w))) hello 1200"
    by (simp add: peer_switch w_s2_facts repeated_def getConversationId_def)
  have m: "sent_msg toy_crypto (ev\<lparr>e_uuid := ''id-3''\<rparr>) (flight 1200 hello ?w) =
           sample_sent ''id-3'' ''u-1'' hello 1200"
    by (rule sent_sample) (simp add: peer_switch)
  have fr: "fresh_msg (sent_msg toy_crypto (ev\<lparr>e_uuid := ''id-3''\<rparr>) (flight 1200 hello ?w)) (stored (store ?w))"
    unfolding m using fp_sample_bucket
      fp_sample_conv[of "''u-1''" "''u-2''" "''id-3''" hello 1200 "''id-2''" "js ''x''" 1100]
    by (simp add: peer_switch w_s2_facts fresh_msg_def) (simp add: truthy_id_def sample_sent_def)
  have b: "\<forall>x \<in> set (stored (store ?w)). created x \<le> 1200"
    by (simp add: peer_switch w_s2_facts created_def sample_sent_def)
  show ?thesis
    unfolding w_s3_def using send_appends[OF a nr fr b] by (simp add: m peer_switch w_s2_facts)
qed

lemma hello_text: "well_formed_text hello" "\<not> starts_with_bom hello" "hello \<noteq> []"
  by (simp_all add: well_formed_text_def starts_with_bom_def hello_def js_def is_high_def is_low_def)

lemma decrypt_sample_hello:
  "decryptMessage toy_crypto ''conv-u-1'' (cipher (sample_sent i ''u-1'' hello now)) = Inr hello"
proof -
  have l: "length rnd12 = 12" by (simp add: rnd12_def)
  show ?thesis
    using encrypt_decrypt_codec[OF toy_correct l, of "''conv-u-1''" hello] hello_text
    by (simp add: sample_sent_def utf8_roundtrip)
qed
















theorem encrypt_roundtrip_witness:
  "aead_correct toy_crypto \<and> length rnd12 = 12 \<and> well_formed_text hello \<and> \<not> starts_with_bom hello
   \<and> decryptMessage toy_crypto ''conv-u-1'' (Some (encryptMessage toy_crypto rnd12 ''conv-u-1'' hello))
       = Inr hello"
proof -
  have l: "length rnd12 = 12" by (simp add: rnd12_def)
  have w: "well_formed_text hello"
    by (simp add: well_formed_text_def hello_def js_def is_high_def is_low_def)
  have b: "\<not> starts_with_bom hello" by (simp add: starts_with_bom_def hello_def js_def)
  show ?thesis using encrypt_roundtrip[OF toy_correct l w b] toy_correct l w b by simp
qed

text \<open>
  Claim C4 as stated fails on two kinds of string, whatever the cipher: a lone surrogate
  comes back as U+FFFD, and a leading U+FEFF is dropped by the decoder.
\<close>

theorem encrypt_roundtrip_counterexample:
  "aead_correct toy_crypto \<and> length rnd12 = 12
   \<and> decryptMessage toy_crypto ''conv-u-1'' (Some (encryptMessage toy_crypto rnd12 ''conv-u-1'' [0xD800]))
       = Inr [0xFFFD]
   \<and> decryptMessage toy_crypto ''conv-u-1'' (Some (encryptMessage toy_crypto rnd12 ''conv-u-1'' [0xFEFF, 0x68]))
       = Inr [0x68]"
proof -
  have l: "length rnd12 = 12" by (simp add: rnd12_def)
  show ?thesis
    using encrypt_decrypt_codec[OF toy_correct l, of "''conv-u-1''"] codec_lone codec_bom toy_correct l
    by simp
qed


theorem duplicate_send_dropped_witness:
  "\<not> no_peer (ui w_open) \<and> \<not> sending (ui w_open)
   \<and> \<not> repeated (lastSend (ui w_open)) (getConversationId (peer_str (ui w_open))) hello 1000
   \<and> (1300 :: int) - 1000 < 600
   \<and> aead_correct toy_crypto \<and> length (e_rnd ev) = 12 \<and> well_formed_text hello
   \<and> \<not> starts_with_bom hello
   \<and> e_uuid ev \<noteq> [] \<and> Some (e_uuid ev) \<notin> msg_id ` set (stored (store w_open))
   \<and> fingerprint (sent_msg toy_crypto ev (flight 1000 hello w_open))
        \<notin> fingerprint ` set (stored (store w_open))
   \<and> sendMessage toy_crypto (ev\<lparr>e_uuid := ''id-2''\<rparr>) 1300 hello w_s1 = w_s1
   \<and> stored (store w_s1) = [sample_sent ''id-1'' ''u-1'' hello 1000]
   \<and> length (stored (store w_s1)) = length (stored (store w_open)) + 1
   \<and> decryptMessage toy_crypto ''conv-u-1'' (cipher (sample_sent ''id-1'' ''u-1'' hello 1000)) = Inr hello"
proof -
  have nr: "\<not> repeated (lastSend (ui w_open)) (getConversationId (peer_str (ui w_open))) hello 1000"
    by (simp add: w_open_ui repeated_def)
  have t: "(1300 :: int) - 1000 < 600" by simp
  have m: "sent_msg toy_crypto ev (flight 1000 hello w_open) = sample_sent ''id-1'' ''u-1'' hello 1000"
    using sent_sample[OF w_open_ui(1), of "''id-1''" 1000 hello] by (simp add: ev_id)
  have l: "length (e_rnd ev) = 12" by (simp add: ev_def rnd12_def)
  have u: "e_uuid ev \<noteq> []" by (simp add: ev_def)
  have c: "getConversationId (peer_str (ui w_open)) = ''conv-u-1''"
    by (simp add: w_open_ui getConversationId_def)
  note th = duplicate_send_dropped[OF w_open_ui(2,3) nr t, of toy_crypto ev "ev\<lparr>e_uuid := ''id-2''\<rparr>",
      unfolded Let_def m c w_s1_def[symmetric]]
  have p1: "aead_correct toy_crypto \<and> length (e_rnd ev) = 12 \<and> well_formed_text hello
            \<and> \<not> starts_with_bom hello"
    using toy_correct l hello_text(1,2) by simp
  have p2: "e_uuid ev \<noteq> [] \<and> Some (e_uuid ev) \<notin> msg_id ` set (stored (store w_open))
            \<and> fingerprint (sample_sent ''id-1'' ''u-1'' hello 1000)
                 \<notin> fingerprint ` set (stored (store w_open))"
    using u by (simp add: w_open_ui(5))
  from th have d: "sendMessage toy_crypto (ev\<lparr>e_uuid := ''id-2''\<rparr>) 1300 hello w_s1 = w_s1"
    by (rule conjunct1)
  from th p2 have n: "length (stored (store w_s1)) = length (stored (store w_open)) + 1"
    by blast
  from th p1 have x: "decryptMessage toy_crypto ''conv-u-1''
                        (cipher (sample_sent ''id-1'' ''u-1'' hello 1000)) = Inr hello"
    by blast
  show ?thesis
    using w_open_ui(2,3) nr p1 p2 d n x w_s1_facts(1) by (simp add: m)
qed

text \<open>
  Claim C6 as stated fails when another send is accepted in between. \<open>Hello\<close> is sent to
  \<open>u-1\<close> at 1000, \<open>x\<close> to \<open>u-2\<close> at 1100 and \<open>Hello\<close> to \<open>u-1\<close> again at 1200: the guard
  compares with the send to \<open>u-2\<close> only, and the store holds \<open>Hello\<close> twice in the
  conversation with \<open>u-1\<close>, 200 ms apart.
\<close>

theorem duplicate_send_counterexample:
  "(1200 :: int) - 1000 < 600
   \<and> stored (store w_s3) =
       [sample_sent ''id-1'' ''u-1'' hello 1000, sample_sent ''id-2'' ''u-2'' (js ''x'') 1100,
        sample_sent ''id-3'' ''u-1'' hello 1200]
   \<and> convId (sample_sent ''id-1'' ''u-1'' hello 1000) = convId (sample_sent ''id-3'' ''u-1'' hello 1200)
   \<and> decryptMessage toy_crypto ''conv-u-1'' (cipher (sample_sent ''id-1'' ''u-1'' hello 1000)) = Inr hello
   \<and> decryptMessage toy_crypto ''conv-u-1'' (cipher (sample_sent ''id-3'' ''u-1'' hello 1200)) = Inr hello"
  using w_s3_facts decrypt_sample_hello by (simp add: sample_sent_def)

theorem pagination_bound_witness:
  "\<not> no_peer st_open \<and> 0 \<le> pageIndex st_open
   \<and> getVisibleMessages st_open (store_of [ex_msg ''a'' 150, ex_msg ''b'' 500]) =
       ([ex_msg ''a'' 150, ex_msg ''b'' 500], 2)"
proof -
  have h: "\<not> no_peer st_open" "0 \<le> pageIndex st_open"
    by (simp_all add: st_open_def w_open_def switchConversation_def init_world_def no_peer_def)
  have s: "msgs_of (fst (loadData (store_of [ex_msg ''a'' 150, ex_msg ''b'' 500]))) =
           [ex_msg ''a'' 150, ex_msg ''b'' 500]"
    by code_simp
  have f: "in_conv (getConversationId (peer_str st_open)) (ex_msg i t)" for i t
    by (simp add: in_conv_def is_deleted_def ex_msg_def getConversationId_def peer_str_def
        st_open_def w_open_def switchConversation_def init_world_def)
  have p: "pageIndex st_open = 0"
    by (simp add: st_open_def w_open_def switchConversation_def init_world_def)
  have "snd (getVisibleMessages st_open (store_of [ex_msg ''a'' 150, ex_msg ''b'' 500])) = 2
        \<and> fst (getVisibleMessages st_open (store_of [ex_msg ''a'' 150, ex_msg ''b'' 500])) =
            [ex_msg ''a'' 150, ex_msg ''b'' 500]"
    using pagination_bound[OF h, of "store_of [ex_msg ''a'' 150, ex_msg ''b'' 500]"]
    by (simp add: s f p Let_def PAGE_SIZE_def case_prod_beta)
  then show ?thesis using h by (simp add: prod_eq_iff)
qed



theorem single_flight_witness:
  "reachable toy_crypto (simulateBotResponse 0 hello ''conv-u-1'' ''u-1'' init_world)
   \<and> \<not> repeated (lastBot (ui (simulateBotResponse 0 hello ''conv-u-1'' ''u-1'' init_world)))
          ''conv-u-1'' (js ''again'') 100
   \<and> bot_timers_for ''conv-u-1''
        (simulateBotResponse 100 (js ''again'') ''conv-u-1'' ''u-1''
           (simulateBotResponse 0 hello ''conv-u-1'' ''u-1'' init_world))
       = [(2, BotJob (js ''again'') ''conv-u-1'' ''u-1'')]"
proof -
  let ?w = "simulateBotResponse 0 hello ''conv-u-1'' ''u-1'' init_world"
  have r: "reachable toy_crypto ?w" by (rule r_bot) (rule r_init)
  have n: "\<not> repeated (lastBot (ui ?w)) ''conv-u-1'' (js ''again'') 100"
    by (simp add: simulateBotResponse_def init_world_def repeated_def Let_def setTimeout_def
        hello_def js_def)
  have x: "nextTimer ?w = 2"
    by (simp add: simulateBotResponse_def init_world_def repeated_def Let_def setTimeout_def)
  show ?thesis
    using single_flight[OF r, of "''conv-u-1''" "js ''again''" 100 "''u-1''"] r n x by simp
qed

end
